theory Spec2Isabelle
  imports Main "HOL-Library.Log_Nat" "HOL-Library.Multiset"
begin

section \<open>Python strings\<close>

text \<open>
  A Python \<open>str\<close> is a sequence of Unicode code points, so a string is a list of
  code-point numbers. The price list uses U+2014 (em dash) and accented Latin letters,
  which do not fit an 8-bit character.
\<close>

type_synonym ustr = "nat list"

definition ascii :: "string \<Rightarrow> ustr" where
  "ascii s = map of_char s"

text \<open>\<open>str.isspace\<close>, which is also the class \<open>\s\<close> of \<open>re\<close> on \<open>str\<close> patterns.\<close>

definition is_space :: "nat \<Rightarrow> bool" where
  "is_space c \<longleftrightarrow>
     (9 \<le> c \<and> c \<le> 13) \<or> (28 \<le> c \<and> c \<le> 32) \<or> c = 133 \<or> c = 160 \<or> c = 5760 \<or>
     (8192 \<le> c \<and> c \<le> 8202) \<or> c = 8232 \<or> c = 8233 \<or> c = 8239 \<or> c = 8287 \<or> c = 12288"

text \<open>
  The decimal digits (general category Nd) of Unicode 14.0, the version of Python 3.11:
  the class \<open>\d\<close> of \<open>re\<close>, and the digits \<open>int\<close> and \<open>float\<close> accept.
  Each entry is the code point of a digit zero; the nine digits after it follow. The
  mathematical digits from U+1D7CE are five such runs in a row.
\<close>

definition digit_zeros :: "nat list" where
  "digit_zeros = [48, 1632, 1776, 1984, 2406, 2534, 2662, 2790, 2918, 3046, 3174, 3302,
     3430, 3558, 3664, 3792, 3872, 4160, 4240, 6112, 6160, 6470, 6608, 6784, 6800, 6992,
     7088, 7232, 7248, 42528, 43216, 43264, 43472, 43504, 43600, 44016, 65296, 66720,
     68912, 69734, 69872, 69942, 70096, 70384, 70736, 70864, 71248, 71360, 71472, 71904,
     72016, 72784, 73040, 73120, 92768, 92864, 93008,
     120782, 120792, 120802, 120812, 120822,
     123200, 123632, 125264, 130032]"

definition digit_val :: "nat \<Rightarrow> nat option" where
  "digit_val c = (case filter (\<lambda>z. z \<le> c \<and> c < z + 10) digit_zeros of
                    [] \<Rightarrow> None | z # _ \<Rightarrow> Some (c - z))"

definition is_digit :: "nat \<Rightarrow> bool" where
  "is_digit c \<longleftrightarrow> digit_val c \<noteq> None"

definition dval :: "nat \<Rightarrow> nat" where
  "dval c = (case digit_val c of None \<Rightarrow> 0 | Some d \<Rightarrow> d)"

text \<open>\<open>str.strip()\<close> with no argument removes leading and trailing whitespace.\<close>

definition lstrip :: "ustr \<Rightarrow> ustr" where
  "lstrip s = dropWhile is_space s"

definition rstrip :: "ustr \<Rightarrow> ustr" where
  "rstrip s = rev (dropWhile is_space (rev s))"

definition strip :: "ustr \<Rightarrow> ustr" where
  "strip s = rstrip (lstrip s)"

text \<open>
  \<open>str.splitlines()\<close>: the line boundaries are LF, VT, FF, CR, CR LF, FS, GS, RS, NEL,
  LS and PS; a boundary at the very end opens no further line.
\<close>

definition is_linebreak :: "nat \<Rightarrow> bool" where
  "is_linebreak c \<longleftrightarrow> c \<in> set [10, 11, 12, 13, 28, 29, 30, 133, 8232, 8233]"

fun after_break :: "nat \<Rightarrow> ustr \<Rightarrow> ustr" where
  "after_break c [] = []"
| "after_break c (d # r) = (if c = 13 \<and> d = 10 then r else d # r)"

function splitlines :: "ustr \<Rightarrow> ustr list" where
  "splitlines s =
     (if s = [] then []
      else (case dropWhile (\<lambda>c. \<not> is_linebreak c) s of
              [] \<Rightarrow> [s]
            | c # r \<Rightarrow> takeWhile (\<lambda>c. \<not> is_linebreak c) s # splitlines (after_break c r)))"
  by pat_completeness auto

lemma length_after_break: "length (after_break c r) \<le> length r"
  by (cases r) auto

termination splitlines
proof (relation "measure length", goal_cases)
  case 1
  show ?case by simp
next
  case (2 s c r)
  have "length (dropWhile (\<lambda>c. \<not> is_linebreak c) s) \<le> length s"
    by (rule length_dropWhile_le)
  with 2 have "length r < length s" by simp
  with length_after_break [of c r] show ?case by simp
qed

declare splitlines.simps [simp del]

text \<open>\<open>str.split(sep)\<close> for a one-character separator.\<close>

fun split_on :: "nat \<Rightarrow> ustr \<Rightarrow> ustr list" where
  "split_on sep [] = [[]]"
| "split_on sep (c # cs) =
     (if c = sep then [] # split_on sep cs
      else (case split_on sep cs of [] \<Rightarrow> [[c]] | p # ps \<Rightarrow> (c # p) # ps))"

text \<open>\<open>str.replace(old, new)\<close> for one-character arguments.\<close>

definition replace :: "nat \<Rightarrow> nat \<Rightarrow> ustr \<Rightarrow> ustr" where
  "replace old new s = map (\<lambda>c. if c = old then new else c) s"

section \<open>Regular expressions\<close>

text \<open>
  The fragment of \<open>re\<close> that the three patterns of the program use. Repetition is only
  ever applied to a single character class. \<open>rmatch r s\<close> lists every way \<open>r\<close> matches
  a prefix of \<open>s\<close>, as the captured groups and the unread rest, in the order in which the
  backtracking matcher of \<open>re\<close> tries them: the head of the list is the match it reports.
\<close>

datatype charclass = Lit nat | AnyChar | Space | Digit | InSet "nat list"

fun cc_match :: "charclass \<Rightarrow> nat \<Rightarrow> bool" where
  "cc_match (Lit a) c = (c = a)"
| "cc_match AnyChar c = (c \<noteq> 10)"
| "cc_match Space c = is_space c"
| "cc_match Digit c = is_digit c"
| "cc_match (InSet cs) c = (c \<in> set cs)"

datatype regex =
    Ch charclass
  | Star charclass
  | Plus charclass
  | PlusLazy charclass
  | Times nat charclass
  | Cat regex regex
  | Alt regex regex
  | Grp regex

text \<open>Greedy \<open>*\<close>: the longest run first, giving back one character at a time.\<close>

fun star_greedy :: "charclass \<Rightarrow> ustr \<Rightarrow> ustr list" where
  "star_greedy k [] = [[]]"
| "star_greedy k (c # cs) = (if cc_match k c then star_greedy k cs @ [c # cs] else [c # cs])"

text \<open>Lazy \<open>*?\<close>: the shortest run first, taking one more character at a time.\<close>

fun star_lazy :: "charclass \<Rightarrow> ustr \<Rightarrow> ustr list" where
  "star_lazy k [] = [[]]"
| "star_lazy k (c # cs) = (c # cs) # (if cc_match k c then star_lazy k cs else [])"

fun times :: "nat \<Rightarrow> charclass \<Rightarrow> ustr \<Rightarrow> ustr list" where
  "times 0 k s = [s]"
| "times (Suc n) k [] = []"
| "times (Suc n) k (c # cs) = (if cc_match k c then times n k cs else [])"

fun rmatch :: "regex \<Rightarrow> ustr \<Rightarrow> (ustr list \<times> ustr) list" where
  "rmatch (Ch k) s = (case s of [] \<Rightarrow> [] | c # cs \<Rightarrow> if cc_match k c then [([], cs)] else [])"
| "rmatch (Star k) s = map (Pair []) (star_greedy k s)"
| "rmatch (Plus k) s =
     (case s of [] \<Rightarrow> [] | c # cs \<Rightarrow> if cc_match k c then map (Pair []) (star_greedy k cs) else [])"
| "rmatch (PlusLazy k) s =
     (case s of [] \<Rightarrow> [] | c # cs \<Rightarrow> if cc_match k c then map (Pair []) (star_lazy k cs) else [])"
| "rmatch (Times n k) s = map (Pair []) (times n k s)"
| "rmatch (Cat r1 r2) s =
     concat (map (\<lambda>(g1, s1). map (\<lambda>(g2, s2). (g1 @ g2, s2)) (rmatch r2 s1)) (rmatch r1 s))"
| "rmatch (Alt r1 r2) s = rmatch r1 s @ rmatch r2 s"
| "rmatch (Grp r) s = map (\<lambda>(g, s'). (take (length s - length s') s # g, s')) (rmatch r s)"

text \<open>\<open>re.match\<close>: a match at the start of the string; the result is its groups.\<close>

definition re_match :: "regex \<Rightarrow> ustr \<Rightarrow> ustr list option" where
  "re_match r s = (case rmatch r s of [] \<Rightarrow> None | (g, _) # _ \<Rightarrow> Some g)"

text \<open>\<open>re.search\<close>: the match at the leftmost position that has one.\<close>

fun re_search :: "regex \<Rightarrow> ustr \<Rightarrow> ustr list option" where
  "re_search r [] = re_match r []"
| "re_search r (c # cs) =
     (case re_match r (c # cs) of None \<Rightarrow> re_search r cs | Some g \<Rightarrow> Some g)"

text \<open>
  \<open>re.split\<close> for a pattern without groups whose matches are never empty (the only
  pattern the program splits on is \<open>,| e \<close>): the text between successive leftmost
  matches. \<open>cur\<close> is the piece being read, in reverse. A match that consumed nothing is
  not a cut here.
\<close>

function re_split_from :: "regex \<Rightarrow> ustr \<Rightarrow> ustr \<Rightarrow> ustr list" where
  "re_split_from r cur [] = [rev cur]"
| "re_split_from r cur (c # cs) =
     (case rmatch r (c # cs) of
        [] \<Rightarrow> re_split_from r (c # cur) cs
      | (g, rest) # _ \<Rightarrow>
          if length rest \<le> length cs then rev cur # re_split_from r [] rest
          else re_split_from r (c # cur) cs)"
  by pat_completeness auto
termination
  by (relation "measure (\<lambda>(r, cur, s). length s)") auto

definition re_split :: "regex \<Rightarrow> ustr \<Rightarrow> ustr list" where
  "re_split r s = re_split_from r [] s"

section \<open>Python floats\<close>

text \<open>
  A \<open>float\<close> is an IEEE 754 binary64 number. Every float of the program is a price, a
  product of a price and a quantity, or a sum of such products, so it is never negative:
  it is a non-negative finite double (given by its exact rational value), \<open>inf\<close> or
  \<open>nan\<close>.
\<close>

datatype pyfloat = Fin rat | PInf | NaN

datatype error = ValueError | OverflowError | KeyError

text \<open>Round to the nearest integer, a tie to the even one.\<close>

definition round_half_even :: "rat \<Rightarrow> int" where
  "round_half_even q =
     (let f = \<lfloor>q\<rfloor>; d = q - of_int f
      in if d < 1 / 2 then f else if 1 / 2 < d then f + 1 else if even f then f else f + 1)"

text \<open>For \<open>q > 0\<close>, the exponent \<open>e\<close> with \<open>2 ^ e \<le> q < 2 ^ (e + 1)\<close>.\<close>

definition binade :: "rat \<Rightarrow> int" where
  "binade q =
     (let (a, b) = quotient_of q;
          d = int (floorlog 2 (nat a)) - int (floorlog 2 (nat b))
      in if 2 powi d \<le> q then d else d - 1)"

text \<open>
  The double nearest to a non-negative rational, ties to even: 53 significant bits, the
  spacing at least \<open>2 ^ -1074\<close> (subnormal numbers), and \<open>inf\<close> when the rounded value
  would reach \<open>2 ^ 1024\<close>.
\<close>

definition to_double :: "rat \<Rightarrow> pyfloat" where
  "to_double q =
     (if q \<le> 0 then Fin 0
      else let u = 2 powi (max (binade q - 52) (- 1074));
               v = of_int (round_half_even (q / u)) * u
           in if 2 ^ 1024 \<le> v then PInf else Fin v)"

fun digits_value :: "ustr \<Rightarrow> nat" where
  "digits_value s = foldl (\<lambda>n c. 10 * n + dval c) 0 s"

text \<open>
  \<open>float(s)\<close> for an unsigned decimal literal \<open>digits.digits\<close>, correctly rounded. The
  program only converts matches of \<open>\d+[,.]\d{2}\<close>, the comma replaced by a period; the
  other literals \<open>float\<close> reads (a sign, an exponent, \<open>inf\<close>, \<open>nan\<close>, underscores,
  surrounding whitespace) are not modelled, and answer \<open>ValueError\<close> here.
\<close>

definition py_float :: "ustr \<Rightarrow> error + pyfloat" where
  "py_float s =
     (let ip = takeWhile is_digit s
      in case dropWhile is_digit s of
           [] \<Rightarrow> if ip = [] then Inl ValueError else Inr (to_double (of_nat (digits_value ip)))
         | c # fp \<Rightarrow>
             if c = 46 \<and> list_all is_digit fp \<and> (ip \<noteq> [] \<or> fp \<noteq> [])
             then Inr (to_double (of_nat (digits_value (ip @ fp)) / 10 ^ length fp))
             else Inl ValueError)"

text \<open>
  Arithmetic on non-negative floats: each operation is the exact result, rounded.
  \<open>inf * 0\<close> is \<open>nan\<close>, and \<open>nan\<close> is absorbing.
\<close>

fun fmul :: "pyfloat \<Rightarrow> pyfloat \<Rightarrow> pyfloat" where
  "fmul (Fin x) (Fin y) = to_double (x * y)"
| "fmul (Fin x) PInf = (if x = 0 then NaN else PInf)"
| "fmul PInf (Fin y) = (if y = 0 then NaN else PInf)"
| "fmul PInf PInf = PInf"
| "fmul NaN y = NaN"
| "fmul x NaN = NaN"

fun fadd :: "pyfloat \<Rightarrow> pyfloat \<Rightarrow> pyfloat" where
  "fadd (Fin x) (Fin y) = to_double (x + y)"
| "fadd (Fin x) PInf = PInf"
| "fadd PInf (Fin y) = PInf"
| "fadd PInf PInf = PInf"
| "fadd NaN y = NaN"
| "fadd x NaN = NaN"

text \<open>Division by a positive float (the program never divides by zero).\<close>

fun fdiv :: "pyfloat \<Rightarrow> pyfloat \<Rightarrow> pyfloat" where
  "fdiv (Fin x) (Fin y) = to_double (x / y)"
| "fdiv (Fin x) PInf = Fin 0"
| "fdiv PInf (Fin y) = PInf"
| "fdiv PInf PInf = NaN"
| "fdiv NaN y = NaN"
| "fdiv x NaN = NaN"

text \<open>The comparisons \<open>>=\<close> and \<open>>\<close>: false whenever a side is \<open>nan\<close>.\<close>

fun fge :: "pyfloat \<Rightarrow> pyfloat \<Rightarrow> bool" where
  "fge (Fin x) (Fin y) = (y \<le> x)"
| "fge PInf (Fin y) = True"
| "fge PInf PInf = True"
| "fge (Fin x) PInf = False"
| "fge NaN y = False"
| "fge x NaN = False"

fun fgt :: "pyfloat \<Rightarrow> pyfloat \<Rightarrow> bool" where
  "fgt (Fin x) (Fin y) = (y < x)"
| "fgt PInf (Fin y) = True"
| "fgt PInf PInf = False"
| "fgt (Fin x) PInf = False"
| "fgt NaN y = False"
| "fgt x NaN = False"

text \<open>
  An \<open>int\<close> operand of a float operation is converted first, correctly rounded; an
  \<open>int\<close> that rounds to \<open>2 ^ 1024\<close> or more raises \<open>OverflowError\<close>.
\<close>

definition float_of_int :: "nat \<Rightarrow> error + pyfloat" where
  "float_of_int n = (case to_double (of_nat n) of PInf \<Rightarrow> Inl OverflowError | f \<Rightarrow> Inr f)"

text \<open>
  \<open>round(x, 2)\<close>: the exact value of \<open>x\<close> rounded to two decimals, ties to even, and
  the double nearest to that decimal; \<open>inf\<close> and \<open>nan\<close> round to themselves.
\<close>

fun round2 :: "pyfloat \<Rightarrow> pyfloat" where
  "round2 (Fin x) = to_double (of_int (round_half_even (x * 100)) / 100)"
| "round2 PInf = PInf"
| "round2 NaN = NaN"

text \<open>\<open>str(n)\<close> for a non-negative \<open>int\<close>: its decimal digits.\<close>

fun str_of_nat :: "nat \<Rightarrow> ustr" where
  "str_of_nat n = (if n < 10 then [48 + n] else str_of_nat (n div 10) @ [48 + n mod 10])"

declare str_of_nat.simps [simp del]

text \<open>
  The format \<open>.2f\<close>: the exact value rounded to two decimals, ties to even, written
  with all its integer digits and two fractional ones.
\<close>

fun format_2f :: "pyfloat \<Rightarrow> ustr" where
  "format_2f (Fin x) =
     (let n = nat (round_half_even (x * 100))
      in str_of_nat (n div 100) @ [46] @ str_of_nat (n mod 100 div 10) @ str_of_nat (n mod 10))"
| "format_2f PInf = ascii ''inf''"
| "format_2f NaN = ascii ''nan''"

section \<open>\<open>extract_products\<close>\<close>

type_synonym Produto = "ustr \<times> pyfloat"

text \<open>
  The pattern \<open>(.+?)\s*D\s*R\$\s*(\d+[,.]\d{2})\<close>, where \<open>D\<close> stands for the em dash
  U+2014 of the source.
\<close>

definition pattern :: regex where
  "pattern =
     Cat (Grp (PlusLazy AnyChar))
    (Cat (Star Space)
    (Cat (Ch (Lit 8212))
    (Cat (Star Space)
    (Cat (Ch (Lit 82))
    (Cat (Ch (Lit 36))
    (Cat (Star Space)
         (Grp (Cat (Plus Digit) (Cat (Ch (InSet [44, 46])) (Times (Suc (Suc 0)) Digit))))))))))"

text \<open>
  The body of the inner loop: one bar-separated part of a line, and the catalog so far.
  A part the pattern does not match, or whose amount \<open>float\<close> refuses, adds nothing.
\<close>

definition extract_part :: "Produto list \<Rightarrow> ustr \<Rightarrow> Produto list" where
  "extract_part produtos part =
     (case re_search pattern (strip part) of
        Some [g1, g2] \<Rightarrow>
          (let nome = strip g1; preco_str = replace 44 46 g2
           in case py_float preco_str of
                Inr preco \<Rightarrow> produtos @ [(nome, preco)]
              | Inl e \<Rightarrow> produtos)
      | _ \<Rightarrow> produtos)"

definition extract_products :: "ustr \<Rightarrow> Produto list" where
  "extract_products pdf_text =
     foldl (\<lambda>produtos line. foldl extract_part produtos (split_on 124 line)) [] (splitlines pdf_text)"

section \<open>\<open>remover_acentos\<close>\<close>

text \<open>
  Modelled from the Unicode Character Database (version 14.0), which the library
  functions \<open>str.lower\<close>, \<open>unicodedata.normalize\<close> and \<open>unicodedata.category\<close> read and
  which is not part of the repository. The tables below are exact on the code points
  \<open>ucd_covered\<close> lists: Latin-1 (below U+0100), the seven combining marks its letters
  decompose to, the em dash, and three further marks (U+0CBF, U+302E, U+1D165). Any other
  code point is treated as having no lower-case mapping, no decomposition, combining
  class 0 and a category other than Mn.
\<close>

definition ucd_covered :: "nat \<Rightarrow> bool" where
  "ucd_covered c \<longleftrightarrow>
     c < 256 \<or> c \<in> set [768, 769, 770, 771, 776, 778, 807, 3263, 8212, 12334, 119141]"

text \<open>\<open>str.lower()\<close>, one code point at a time.\<close>

definition lower_char :: "nat \<Rightarrow> nat" where
  "lower_char c =
     (if (65 \<le> c \<and> c \<le> 90) \<or> (192 \<le> c \<and> c \<le> 222 \<and> c \<noteq> 215) then c + 32 else c)"

definition py_lower :: "ustr \<Rightarrow> ustr" where
  "py_lower s = map lower_char s"

text \<open>The canonical decompositions: an accented Latin-1 letter is a base letter and a mark.\<close>

definition decomp_table :: "(nat \<times> ustr) list" where
  "decomp_table =
     [(192, [65, 768]), (193, [65, 769]), (194, [65, 770]), (195, [65, 771]),
      (196, [65, 776]), (197, [65, 778]), (199, [67, 807]), (200, [69, 768]),
      (201, [69, 769]), (202, [69, 770]), (203, [69, 776]), (204, [73, 768]),
      (205, [73, 769]), (206, [73, 770]), (207, [73, 776]), (209, [78, 771]),
      (210, [79, 768]), (211, [79, 769]), (212, [79, 770]), (213, [79, 771]),
      (214, [79, 776]), (217, [85, 768]), (218, [85, 769]), (219, [85, 770]),
      (220, [85, 776]), (221, [89, 769]), (224, [97, 768]), (225, [97, 769]),
      (226, [97, 770]), (227, [97, 771]), (228, [97, 776]), (229, [97, 778]),
      (231, [99, 807]), (232, [101, 768]), (233, [101, 769]), (234, [101, 770]),
      (235, [101, 776]), (236, [105, 768]), (237, [105, 769]), (238, [105, 770]),
      (239, [105, 776]), (241, [110, 771]), (242, [111, 768]), (243, [111, 769]),
      (244, [111, 770]), (245, [111, 771]), (246, [111, 776]), (249, [117, 768]),
      (250, [117, 769]), (251, [117, 770]), (252, [117, 776]), (253, [121, 769]),
      (255, [121, 776])]"

definition decomp :: "nat \<Rightarrow> ustr" where
  "decomp c = (case map_of decomp_table c of None \<Rightarrow> [c] | Some d \<Rightarrow> d)"

text \<open>The canonical combining class.\<close>

definition ccc :: "nat \<Rightarrow> nat" where
  "ccc c =
     (if c \<in> set [768, 769, 770, 771, 776, 778] then 230
      else if c = 807 then 202
      else if c = 12334 then 224
      else if c = 119141 then 216
      else 0)"

text \<open>The general category Mn (nonspacing mark).\<close>

definition is_Mn :: "nat \<Rightarrow> bool" where
  "is_Mn c \<longleftrightarrow> c \<in> set [768, 769, 770, 771, 776, 778, 807, 3263]"

text \<open>
  Canonical ordering: a character of non-zero combining class moves left past the
  characters of a greater class that stand directly before it. \<open>out\<close> is the text placed
  so far, in reverse.
\<close>

fun place :: "nat \<Rightarrow> ustr \<Rightarrow> ustr" where
  "place c [] = [c]"
| "place c (d # out) = (if ccc c \<noteq> 0 \<and> ccc c < ccc d then d # place c out else c # d # out)"

definition canonical_order :: "ustr \<Rightarrow> ustr" where
  "canonical_order s = rev (foldl (\<lambda>out c. place c out) [] s)"

text \<open>\<open>unicodedata.normalize('NFD', s)\<close>.\<close>

definition nfd :: "ustr \<Rightarrow> ustr" where
  "nfd s = canonical_order (concat (map decomp s))"

definition remover_acentos :: "ustr \<Rightarrow> ustr" where
  "remover_acentos texto = filter (\<lambda>c. \<not> is_Mn c) (nfd texto)"

text \<open>The normalisation the program applies to catalog names and to the order text.\<close>

definition normalize :: "ustr \<Rightarrow> ustr" where
  "normalize s = remover_acentos (py_lower s)"

section \<open>\<open>difflib\<close>\<close>

text \<open>
  \<open>SequenceMatcher(None, a, b)\<close> with the default \<open>autojunk\<close>: \<open>b2j\<close> maps an element of
  \<open>b\<close> to the positions where it occurs, in ascending order; when \<open>b\<close> has 200 or more
  elements, an element that occurs more than \<open>len(b) // 100 + 1\<close> times is removed from
  \<open>b2j\<close>. No junk predicate is given, so the junk set is empty.
\<close>

fun indices_of :: "nat \<Rightarrow> ustr \<Rightarrow> nat \<Rightarrow> nat list" where
  "indices_of elt [] i = []"
| "indices_of elt (x # xs) i = (if x = elt then i # indices_of elt xs (i + 1) else indices_of elt xs (i + 1))"

definition popular :: "ustr \<Rightarrow> nat \<Rightarrow> bool" where
  "popular b elt \<longleftrightarrow> 200 \<le> length b \<and> length b div 100 + 1 < length (indices_of elt b 0)"

definition b2j_get :: "ustr \<Rightarrow> nat \<Rightarrow> nat list" where
  "b2j_get b elt = (if popular b elt then [] else indices_of elt b 0)"

type_synonym block = "nat \<times> nat \<times> nat"

text \<open>
  The inner loop of \<open>find_longest_match\<close> over the positions \<open>j\<close> of \<open>a[i]\<close> in \<open>b\<close>:
  \<open>continue\<close> below \<open>blo\<close>, \<open>break\<close> from \<open>bhi\<close> on. \<open>j2len.get(j-1, 0)\<close> is 0 for
  \<open>j = 0\<close>. The new best block starts at \<open>i-k+1\<close>, \<open>j-k+1\<close>, where \<open>k\<close> is at most
  \<open>i+1\<close> and \<open>j+1\<close>.
\<close>

fun flm_inner ::
  "nat \<Rightarrow> nat \<Rightarrow> nat \<Rightarrow> (nat \<rightharpoonup> nat) \<Rightarrow> block \<times> (nat \<rightharpoonup> nat) \<Rightarrow> nat list \<Rightarrow> block \<times> (nat \<rightharpoonup> nat)"
where
  "flm_inner i blo bhi j2len st [] = st"
| "flm_inner i blo bhi j2len (best, newj2len) (j # js) =
     (if j < blo then flm_inner i blo bhi j2len (best, newj2len) js
      else if bhi \<le> j then (best, newj2len)
      else
        let k = (if j = 0 then 0 else case j2len (j - 1) of None \<Rightarrow> 0 | Some v \<Rightarrow> v) + 1
        in flm_inner i blo bhi j2len
             (if snd (snd best) < k then (i + 1 - k, j + 1 - k, k) else best, newj2len(j \<mapsto> k)) js)"

fun flm_outer ::
  "ustr \<Rightarrow> ustr \<Rightarrow> nat \<Rightarrow> nat \<Rightarrow> block \<times> (nat \<rightharpoonup> nat) \<Rightarrow> nat list \<Rightarrow> block"
where
  "flm_outer a b blo bhi (best, j2len) [] = best"
| "flm_outer a b blo bhi (best, j2len) (i # is) =
     flm_outer a b blo bhi (flm_inner i blo bhi j2len (best, Map.empty) (b2j_get b (a ! i))) is"

text \<open>The two loops that extend the best block by equal elements on either side.\<close>

function extend_left :: "ustr \<Rightarrow> ustr \<Rightarrow> nat \<Rightarrow> nat \<Rightarrow> block \<Rightarrow> block" where
  "extend_left a b alo blo (besti, bestj, bestsize) =
     (if alo < besti \<and> blo < bestj \<and> a ! (besti - 1) = b ! (bestj - 1)
      then extend_left a b alo blo (besti - 1, bestj - 1, bestsize + 1)
      else (besti, bestj, bestsize))"
  by pat_completeness auto
termination
  by (relation "measure (\<lambda>(a, b, alo, blo, besti, bestj, bestsize). besti)") auto

function extend_right :: "ustr \<Rightarrow> ustr \<Rightarrow> nat \<Rightarrow> nat \<Rightarrow> block \<Rightarrow> block" where
  "extend_right a b ahi bhi (besti, bestj, bestsize) =
     (if besti + bestsize < ahi \<and> bestj + bestsize < bhi \<and>
         a ! (besti + bestsize) = b ! (bestj + bestsize)
      then extend_right a b ahi bhi (besti, bestj, bestsize + 1)
      else (besti, bestj, bestsize))"
  by pat_completeness auto
termination
  by (relation "measure (\<lambda>(a, b, ahi, bhi, besti, bestj, bestsize). ahi - (besti + bestsize))") auto

declare extend_left.simps [simp del] extend_right.simps [simp del]

definition find_longest_match :: "ustr \<Rightarrow> ustr \<Rightarrow> nat \<Rightarrow> nat \<Rightarrow> nat \<Rightarrow> nat \<Rightarrow> block" where
  "find_longest_match a b alo ahi blo bhi =
     extend_right a b ahi bhi
       (extend_left a b alo blo
          (flm_outer a b blo bhi ((alo, blo, 0), Map.empty) [alo..<ahi]))"

lemma indices_of_sound:
  "j \<in> set (indices_of elt xs n) \<Longrightarrow> n \<le> j \<and> j < n + length xs \<and> xs ! (j - n) = elt"
proof (induction xs arbitrary: n)
  case Nil
  then show ?case by simp
next
  case (Cons x xs)
  show ?case
  proof (cases "j = n \<and> x = elt")
    case True
    then show ?thesis by simp
  next
    case False
    with Cons.prems have "j \<in> set (indices_of elt xs (n + 1))"
      by (auto split: if_splits)
    from Cons.IH [OF this] have "n + 1 \<le> j" "j < n + 1 + length xs" "xs ! (j - (n + 1)) = elt"
      by auto
    then show ?thesis by (auto simp: nth_Cons')
  qed
qed

lemma b2j_get_sound: "j \<in> set (b2j_get b elt) \<Longrightarrow> j < length b \<and> b ! j = elt"
  using indices_of_sound [of j elt b 0] by (auto simp: b2j_get_def split: if_splits)

text \<open>
  What the loops of \<open>find_longest_match\<close> maintain: the best block lies inside the
  window and its two sides are equal; the lengths recorded in \<open>j2len\<close> are lengths of
  equal runs that end at the previous element of \<open>a\<close>.
\<close>

definition seg_eq :: "ustr \<Rightarrow> ustr \<Rightarrow> nat \<Rightarrow> nat \<Rightarrow> nat \<Rightarrow> bool" where
  "seg_eq a b i j k \<longleftrightarrow> (\<forall>t<k. a ! (i + t) = b ! (j + t))"

definition block_ok :: "ustr \<Rightarrow> ustr \<Rightarrow> nat \<Rightarrow> nat \<Rightarrow> nat \<Rightarrow> nat \<Rightarrow> block \<Rightarrow> bool" where
  "block_ok a b alo ahi blo bhi blk \<longleftrightarrow>
     (case blk of (i, j, k) \<Rightarrow>
        alo \<le> i \<and> i + k \<le> ahi \<and> blo \<le> j \<and> j + k \<le> bhi \<and> seg_eq a b i j k)"

definition j2len_ok :: "ustr \<Rightarrow> ustr \<Rightarrow> nat \<Rightarrow> nat \<Rightarrow> nat \<Rightarrow> nat \<Rightarrow> (nat \<rightharpoonup> nat) \<Rightarrow> bool" where
  "j2len_ok a b alo blo bhi i m \<longleftrightarrow>
     (\<forall>j v. m j = Some v \<longrightarrow>
        v \<le> i - alo \<and> v \<le> j + 1 - blo \<and> j < bhi \<and> seg_eq a b (i - v) (j + 1 - v) v)"

lemma seg_eq_Suc:
  "seg_eq a b i j k \<Longrightarrow> a ! (i + k) = b ! (j + k) \<Longrightarrow> seg_eq a b i j (Suc k)"
  by (auto simp: seg_eq_def less_Suc_eq)

lemma flm_inner_inv:
  assumes "j2len_ok a b alo blo bhi i j2len" "alo \<le> i" "i < ahi"
    and "\<forall>j\<in>set js. b ! j = a ! i"
    and "block_ok a b alo ahi blo bhi best" "j2len_ok a b alo blo bhi (i + 1) new"
    and "flm_inner i blo bhi j2len (best, new) js = (best', new')"
  shows "block_ok a b alo ahi blo bhi best' \<and> j2len_ok a b alo blo bhi (i + 1) new'"
  using assms(4-)
proof (induction js arbitrary: best new)
  case Nil
  then show ?case by simp
next
  case (Cons j js)
  show ?case
  proof (cases "j < blo")
    case True
    with Cons show ?thesis by simp
  next
    case lo: False
    show ?thesis
    proof (cases "bhi \<le> j")
      case True
      with lo Cons.prems show ?thesis by simp
    next
      case hi: False
      define v where "v = (if j = 0 then 0 else case j2len (j - 1) of None \<Rightarrow> 0 | Some v \<Rightarrow> v)"
      define k where "k = v + 1"
      have v: "v \<le> i - alo \<and> v \<le> j - blo \<and> seg_eq a b (i - v) (j - v) v"
      proof (cases "j = 0 \<or> j2len (j - 1) = None")
        case True
        then have "v = 0" by (auto simp: v_def)
        then show ?thesis by (simp add: seg_eq_def)
      next
        case False
        then obtain w where w: "j2len (j - 1) = Some w" and j: "0 < j" by auto
        then have "v = w" by (simp add: v_def)
        moreover from assms(1) w
        have "w \<le> i - alo \<and> w \<le> (j - 1) + 1 - blo \<and> seg_eq a b (i - w) ((j - 1) + 1 - w) w"
          unfolding j2len_ok_def by blast
        ultimately show ?thesis using j by simp
      qed
      have aij: "a ! i = b ! j" using Cons.prems(1) by simp
      have seg: "seg_eq a b (i + 1 - k) (j + 1 - k) k"
      proof -
        from v assms(2) lo have "i + 1 - k = i - v" "j + 1 - k = j - v" "i - v + v = i" "j - v + v = j"
          by (auto simp: k_def)
        with seg_eq_Suc [of a b "i - v" "j - v" v] v aij show ?thesis
          by (simp add: k_def)
      qed
      have kb: "k \<le> i + 1 - alo" "k \<le> j + 1 - blo"
        using v assms(2) lo by (auto simp: k_def)
      have best2: "block_ok a b alo ahi blo bhi (i + 1 - k, j + 1 - k, k)"
        using kb seg assms(2,3) lo hi by (auto simp: block_ok_def)
      have new2: "j2len_ok a b alo blo bhi (i + 1) (new(j \<mapsto> k))"
        using Cons.prems(3) kb seg hi by (auto simp: j2len_ok_def)
      have step: "flm_inner i blo bhi j2len
           (if snd (snd best) < k then (i + 1 - k, j + 1 - k, k) else best, new(j \<mapsto> k)) js = (best', new')"
      proof -
        have "flm_inner i blo bhi j2len (best, new) (j # js) =
          flm_inner i blo bhi j2len
           (if snd (snd best) < k then (i + 1 - k, j + 1 - k, k) else best, new(j \<mapsto> k)) js"
          unfolding k_def v_def by (simp only: flm_inner.simps lo hi if_False Let_def)
        with Cons.prems(4) show ?thesis by simp
      qed
      show ?thesis
      proof (rule Cons.IH [OF _ _ new2 step])
        show "\<forall>j\<in>set js. b ! j = a ! i" using Cons.prems(1) by simp
        show "block_ok a b alo ahi blo bhi (if snd (snd best) < k then (i + 1 - k, j + 1 - k, k) else best)"
          using best2 Cons.prems(2) by simp
      qed
    qed
  qed
qed

lemma flm_outer_inv:
  assumes "block_ok a b alo ahi blo bhi best" "j2len_ok a b alo blo bhi i j2len" "alo \<le> i"
  shows "block_ok a b alo ahi blo bhi (flm_outer a b blo bhi (best, j2len) [i..<ahi])"
  using assms
proof (induction "ahi - i" arbitrary: i best j2len)
  case 0
  then show ?case by simp
next
  case (Suc n)
  then have lt: "i < ahi" by simp
  then have up: "[i..<ahi] = i # [i + 1..<ahi]" by (simp add: upt_rec)
  obtain best' new' where st: "flm_inner i blo bhi j2len (best, Map.empty) (b2j_get b (a ! i)) = (best', new')"
    by (cases "flm_inner i blo bhi j2len (best, Map.empty) (b2j_get b (a ! i))")
  have "block_ok a b alo ahi blo bhi best' \<and> j2len_ok a b alo blo bhi (i + 1) new'"
  proof (rule flm_inner_inv [OF Suc.prems(2) Suc.prems(3) lt _ Suc.prems(1) _ st])
    show "\<forall>j\<in>set (b2j_get b (a ! i)). b ! j = a ! i" by (simp add: b2j_get_sound)
    show "j2len_ok a b alo blo bhi (i + 1) Map.empty" by (simp add: j2len_ok_def)
  qed
  moreover have "n = ahi - (i + 1)" using Suc.hyps(2) by simp
  ultimately have "block_ok a b alo ahi blo bhi (flm_outer a b blo bhi (best', new') [i + 1..<ahi])"
    using Suc.hyps(1) [of "i + 1" best' new'] Suc.prems(3) by simp
  then show ?case by (simp add: up st)
qed

lemma extend_left_ok:
  "block_ok a b alo ahi blo bhi blk \<Longrightarrow> block_ok a b alo ahi blo bhi (extend_left a b alo blo blk)"
proof (induction a b alo blo blk rule: extend_left.induct)
  case (1 a b alo blo besti bestj bestsize)
  show ?case
  proof (cases "alo < besti \<and> blo < bestj \<and> a ! (besti - 1) = b ! (bestj - 1)")
    case True
    have "block_ok a b alo ahi blo bhi (besti - 1, bestj - 1, bestsize + 1)"
      using True "1.prems"
      apply (auto simp: block_ok_def seg_eq_def)
      subgoal for t by (cases t) auto
      done
    from "1.IH" [OF True this] True show ?thesis
      by (simp add: extend_left.simps [of a b alo blo besti bestj bestsize])
  next
    case False
    with "1.prems" show ?thesis
      by (subst extend_left.simps) auto
  qed
qed

lemma extend_right_ok:
  "block_ok a b alo ahi blo bhi blk \<Longrightarrow> block_ok a b alo ahi blo bhi (extend_right a b ahi bhi blk)"
proof (induction a b ahi bhi blk rule: extend_right.induct)
  case (1 a b ahi bhi besti bestj bestsize)
  show ?case
  proof (cases "besti + bestsize < ahi \<and> bestj + bestsize < bhi \<and>
         a ! (besti + bestsize) = b ! (bestj + bestsize)")
    case True
    have "block_ok a b alo ahi blo bhi (besti, bestj, bestsize + 1)"
      using True "1.prems" by (auto simp: block_ok_def seg_eq_def less_Suc_eq)
    from "1.IH" [OF True this] True show ?thesis
      by (simp add: extend_right.simps [of a b ahi bhi besti bestj bestsize])
  next
    case False
    with "1.prems" show ?thesis
      by (subst extend_right.simps) auto
  qed
qed

lemma find_longest_match_ok:
  assumes "alo \<le> ahi" "blo \<le> bhi"
  shows "block_ok a b alo ahi blo bhi (find_longest_match a b alo ahi blo bhi)"
  unfolding find_longest_match_def
  by (intro extend_right_ok extend_left_ok flm_outer_inv)
     (use assms in \<open>auto simp: block_ok_def seg_eq_def j2len_ok_def\<close>)

text \<open>
  \<open>get_matching_blocks\<close>: the work list holds the windows still to search, the one
  pushed last at the head; a window with a block is split at the block. The sort and the
  merge of adjacent blocks that follow do not change the sizes, which is all \<open>ratio\<close> adds up.
\<close>

type_synonym window = "nat \<times> nat \<times> nat \<times> nat"

definition push_windows :: "window \<Rightarrow> block \<Rightarrow> window list \<Rightarrow> window list" where
  "push_windows w blk queue =
     (case (w, blk) of ((alo, ahi, blo, bhi), (i, j, k)) \<Rightarrow>
        (if i + k < ahi \<and> j + k < bhi then [(i + k, ahi, j + k, bhi)] else []) @
        (if alo < i \<and> blo < j then [(alo, i, blo, j)] else []) @ queue)"

definition queue_size :: "window list \<Rightarrow> nat" where
  "queue_size queue = sum_list (map (\<lambda>(alo, ahi, blo, bhi). 2 * (ahi - alo) + 1) queue)"

lemma flm_inner_empty:
  "bhi \<le> blo \<Longrightarrow> fst (flm_inner i blo bhi j2len (best, new) js) = best"
  by (induction js arbitrary: new) auto

lemma flm_outer_empty:
  "bhi \<le> blo \<Longrightarrow> flm_outer a b blo bhi (best, j2len) is = best"
proof (induction "is" arbitrary: j2len)
  case Nil
  then show ?case by simp
next
  case (Cons i "is")
  obtain best' new' where st:
    "flm_inner i blo bhi j2len (best, Map.empty) (b2j_get b (a ! i)) = (best', new')"
    by (cases "flm_inner i blo bhi j2len (best, Map.empty) (b2j_get b (a ! i))")
  with flm_inner_empty [OF Cons.prems, of i j2len best Map.empty "b2j_get b (a ! i)"]
  have "best' = best" by simp
  with Cons st show ?case by simp
qed

lemma find_longest_match_empty:
  assumes "ahi \<le> alo \<or> bhi \<le> blo"
  shows "find_longest_match a b alo ahi blo bhi = (alo, blo, 0)"
proof -
  have "flm_outer a b blo bhi ((alo, blo, 0), Map.empty) [alo..<ahi] = (alo, blo, 0)"
    using assms by (auto simp: flm_outer_empty)
  moreover have "extend_left a b alo blo (alo, blo, 0) = (alo, blo, 0)"
    by (subst extend_left.simps) simp
  moreover have "extend_right a b ahi bhi (alo, blo, 0) = (alo, blo, 0)"
    using assms by (subst extend_right.simps) auto
  ultimately show ?thesis by (simp add: find_longest_match_def)
qed

lemma find_longest_match_block:
  assumes "find_longest_match a b alo ahi blo bhi = (i, j, k)" "k \<noteq> 0"
  shows "block_ok a b alo ahi blo bhi (i, j, k)"
proof -
  have "\<not> (ahi \<le> alo \<or> bhi \<le> blo)"
  proof
    assume "ahi \<le> alo \<or> bhi \<le> blo"
    from find_longest_match_empty [OF this, of a b] assms show False by simp
  qed
  then have "alo \<le> ahi" "blo \<le> bhi" by auto
  from find_longest_match_ok [OF this, of a b] assms(1) show ?thesis by simp
qed

lemma push_windows_size:
  assumes "find_longest_match a b alo ahi blo bhi = (i, j, k)" and "k \<noteq> 0"
  shows "queue_size (push_windows (alo, ahi, blo, bhi) (i, j, k) queue)
           < queue_size ((alo, ahi, blo, bhi) # queue)"
proof -
  from find_longest_match_block [OF assms]
  have "alo \<le> i" "i + k \<le> ahi" by (simp_all add: block_ok_def)
  with assms(2) show ?thesis
    by (auto simp: queue_size_def push_windows_def)
qed

function blocks_loop :: "ustr \<Rightarrow> ustr \<Rightarrow> window list \<Rightarrow> block list \<Rightarrow> block list" where
  "blocks_loop a b [] matching_blocks = matching_blocks"
| "blocks_loop a b ((alo, ahi, blo, bhi) # queue) matching_blocks =
     (case find_longest_match a b alo ahi blo bhi of (i, j, k) \<Rightarrow>
        if k \<noteq> 0
        then blocks_loop a b (push_windows (alo, ahi, blo, bhi) (i, j, k) queue)
               (matching_blocks @ [(i, j, k)])
        else blocks_loop a b queue matching_blocks)"
  by pat_completeness auto
termination
proof (relation "measure (\<lambda>(a, b, queue, m). queue_size queue)", goal_cases)
  case 1
  show ?case by simp
next
  case (2 a b alo ahi blo bhi queue m i rest j k)
  then have "find_longest_match a b alo ahi blo bhi = (i, j, k)" "k \<noteq> 0" by simp_all
  from push_windows_size [OF this] show ?case by simp
next
  case 3
  then show ?case by (simp add: queue_size_def)
qed

text \<open>\<open>ratio\<close> adds up the sizes of the matching blocks.\<close>

definition matches :: "ustr \<Rightarrow> ustr \<Rightarrow> nat" where
  "matches a b =
     sum_list (map (\<lambda>(i, j, k). k) (blocks_loop a b [(0, length a, 0, length b)] []))"

text \<open>
  \<open>_calculate_ratio\<close> computes \<open>2.0 * matches / length\<close> on floats. Its \<open>int\<close> operands
  are lengths of strings, below \<open>2 ^ 63\<close> in Python, so their conversion to \<open>float\<close>
  cannot overflow; for a longer list the model gives \<open>inf\<close>.
\<close>

definition float_of_len :: "nat \<Rightarrow> pyfloat" where
  "float_of_len n = to_double (of_nat n)"

definition calculate_ratio :: "nat \<Rightarrow> nat \<Rightarrow> pyfloat" where
  "calculate_ratio m len =
     (if len \<noteq> 0 then fdiv (fmul (Fin 2) (float_of_len m)) (float_of_len len) else Fin 1)"

definition ratio :: "ustr \<Rightarrow> ustr \<Rightarrow> pyfloat" where
  "ratio a b = calculate_ratio (matches a b) (length a + length b)"

text \<open>
  \<open>quick_ratio\<close>: \<open>avail[x]\<close> is the number of times \<open>x\<close> occurs in \<open>b\<close> less the number
  of times it was seen in \<open>a\<close> so far; \<open>fullbcount.get(elt, 0)\<close> counts \<open>elt\<close> in \<open>b\<close>.
\<close>

fun quick_loop :: "ustr \<Rightarrow> (nat \<rightharpoonup> int) \<Rightarrow> nat \<Rightarrow> ustr \<Rightarrow> nat" where
  "quick_loop b avail m [] = m"
| "quick_loop b avail m (elt # as) =
     (let numb = (case avail elt of Some n \<Rightarrow> n | None \<Rightarrow> int (count_list b elt))
      in quick_loop b (avail(elt \<mapsto> numb - 1)) (if 0 < numb then m + 1 else m) as)"

definition quick_ratio :: "ustr \<Rightarrow> ustr \<Rightarrow> pyfloat" where
  "quick_ratio a b = calculate_ratio (quick_loop b Map.empty 0 a) (length a + length b)"

definition real_quick_ratio :: "ustr \<Rightarrow> ustr \<Rightarrow> pyfloat" where
  "real_quick_ratio a b = calculate_ratio (min (length a) (length b)) (length a + length b)"

text \<open>The cutoff of the program, the float \<open>0.6\<close>.\<close>

definition cutoff :: pyfloat where
  "cutoff = to_double (3 / 5)"

text \<open>
  \<open>get_close_matches(word, possibilities, n=1, cutoff=0.6)\<close>: the pairs (score, name)
  of the names that pass the three tests, with \<open>word\<close> as the second sequence; then
  \<open>heapq.nlargest(1, result)\<close>, which is \<open>max\<close>: the first pair that no later pair
  exceeds. Pairs compare as tuples, the scores first, then the names as strings. No
  score in the list is \<open>nan\<close>.
\<close>

definition scored :: "ustr \<Rightarrow> ustr list \<Rightarrow> (pyfloat \<times> ustr) list" where
  "scored word possibilities =
     concat (map (\<lambda>x. if fge (real_quick_ratio x word) cutoff \<and>
                          fge (quick_ratio x word) cutoff \<and>
                          fge (ratio x word) cutoff
                       then [(ratio x word, x)] else []) possibilities)"

fun str_gt :: "ustr \<Rightarrow> ustr \<Rightarrow> bool" where
  "str_gt [] ys = False"
| "str_gt (x # xs) [] = True"
| "str_gt (x # xs) (y # ys) = (if x = y then str_gt xs ys else y < x)"

definition tuple_gt :: "pyfloat \<times> ustr \<Rightarrow> pyfloat \<times> ustr \<Rightarrow> bool" where
  "tuple_gt t u = (if fst t \<noteq> fst u then fgt (fst t) (fst u) else str_gt (snd t) (snd u))"

definition nlargest1 :: "(pyfloat \<times> ustr) list \<Rightarrow> (pyfloat \<times> ustr) list" where
  "nlargest1 result =
     (case result of [] \<Rightarrow> [] | t # ts \<Rightarrow> [foldl (\<lambda>m u. if tuple_gt u m then u else m) t ts])"

definition get_close_matches :: "ustr \<Rightarrow> ustr list \<Rightarrow> ustr list" where
  "get_close_matches word possibilities = map snd (nlargest1 (scored word possibilities))"

section \<open>\<open>calcular_pedido_completo\<close>\<close>

text \<open>The patterns \<open>,| e \<close> and \<open>(\d+)\s+(.+)\<close>.\<close>

definition split_pattern :: regex where
  "split_pattern = Alt (Ch (Lit 44)) (Cat (Ch (Lit 32)) (Cat (Ch (Lit 101)) (Ch (Lit 32))))"

definition qtd_pattern :: regex where
  "qtd_pattern = Cat (Grp (Plus Digit)) (Cat (Plus Space) (Grp (Plus AnyChar)))"

text \<open>
  \<open>int(s)\<close> for a string of decimal digits. CPython refuses a string of more than 4300
  digits with \<open>ValueError\<close> (the default of \<open>sys.set_int_max_str_digits\<close>).
\<close>

definition int_max_str_digits :: nat where
  "int_max_str_digits = 4300"

definition py_int :: "ustr \<Rightarrow> error + nat" where
  "py_int s =
     (if s = [] \<or> \<not> list_all is_digit s \<or> int_max_str_digits < length s then Inl ValueError
      else Inr (digits_value s))"

text \<open>The name list and the dictionary of the catalog; a later entry replaces an earlier one
  of the same normalised name.\<close>

definition nomes_prod_norm :: "Produto list \<Rightarrow> ustr list" where
  "nomes_prod_norm produtos = map (\<lambda>p. normalize (fst p)) produtos"

definition mapa_produtos :: "Produto list \<Rightarrow> (ustr \<rightharpoonup> Produto)" where
  "mapa_produtos produtos = foldl (\<lambda>m p. m(normalize (fst p) \<mapsto> p)) Map.empty produtos"

text \<open>The fragments of the order: split, stripped, the empty ones dropped.\<close>

definition palavras :: "ustr \<Rightarrow> ustr list" where
  "palavras pedido =
     map strip (filter (\<lambda>p. strip p \<noteq> []) (re_split split_pattern (normalize pedido)))"

text \<open>The quantity and the name of one fragment.\<close>

definition parse_item :: "ustr \<Rightarrow> error + nat \<times> ustr" where
  "parse_item palavra =
     (case re_match qtd_pattern palavra of
        Some [g1, g2] \<Rightarrow>
          (case py_int g1 of Inl e \<Rightarrow> Inl e | Inr qtd \<Rightarrow> Inr (qtd, strip g2))
      | _ \<Rightarrow> Inr (1, palavra))"

text \<open>
  The state of the loop: the running total, the item lines, and the lines printed (the
  warnings for the names that were not found).
\<close>

record pedido_state =
  total :: pyfloat
  itens_pedidos :: "ustr list"
  printed :: "ustr list"

definition item_line :: "nat \<Rightarrow> ustr \<Rightarrow> pyfloat \<Rightarrow> ustr" where
  "item_line qtd nome_original subtotal =
     str_of_nat qtd @ [32] @ nome_original @ [32, 8212, 32, 82, 36] @ format_2f subtotal"

definition aviso_line :: "ustr \<Rightarrow> ustr" where
  "aviso_line prod_nome_raw =
     ascii '' Aviso: N'' @ [227] @ ascii ''o encontramos '' @ [39] @ prod_nome_raw @ [39] @
     ascii '' no card'' @ [225] @ ascii ''pio.''"

definition process_item :: "Produto list \<Rightarrow> pedido_state \<Rightarrow> ustr \<Rightarrow> error + pedido_state" where
  "process_item produtos st palavra =
     (case parse_item palavra of
        Inl e \<Rightarrow> Inl e
      | Inr (qtd, prod_nome_raw) \<Rightarrow>
          (case get_close_matches prod_nome_raw (nomes_prod_norm produtos) of
             [] \<Rightarrow> Inr (st\<lparr>printed := printed st @ [aviso_line prod_nome_raw]\<rparr>)
           | nome_norm_match # _ \<Rightarrow>
               (case mapa_produtos produtos nome_norm_match of
                  None \<Rightarrow> Inl KeyError
                | Some (nome_original, preco) \<Rightarrow>
                    (case float_of_int qtd of
                       Inl e \<Rightarrow> Inl e
                     | Inr q \<Rightarrow>
                         (let subtotal = fmul preco q
                          in Inr (st\<lparr>total := fadd (total st) subtotal,
                                    itens_pedidos := itens_pedidos st @
                                      [item_line qtd nome_original subtotal]\<rparr>))))))"

fun process_items :: "Produto list \<Rightarrow> pedido_state \<Rightarrow> ustr list \<Rightarrow> error + pedido_state" where
  "process_items produtos st [] = Inr st"
| "process_items produtos st (palavra # rest) =
     (case process_item produtos st palavra of
        Inl e \<Rightarrow> Inl e
      | Inr st' \<Rightarrow> process_items produtos st' rest)"

text \<open>
  The result: the rounded total and the item lines, as the function returns them, and
  the lines it printed. An exception leaves the function with nothing returned.
\<close>

definition calcular_pedido_completo ::
  "ustr \<Rightarrow> Produto list \<Rightarrow> error + (pyfloat \<times> ustr list) \<times> ustr list" where
  "calcular_pedido_completo pedido produtos =
     (case process_items produtos \<lparr>total = Fin 0, itens_pedidos = [], printed = []\<rparr>
             (palavras pedido) of
        Inl e \<Rightarrow> Inl e
      | Inr st \<Rightarrow> Inr ((round2 (total st), itens_pedidos st), printed st))"

section \<open>Rounding to a double\<close>

lemma rhe_cases:
  "round_half_even q = \<lfloor>q\<rfloor> \<or> round_half_even q = \<lfloor>q\<rfloor> + 1"
  by (simp add: round_half_even_def Let_def)

lemma rhe_of_int [simp]: "round_half_even (of_int n) = n"
  by (simp add: round_half_even_def Let_def)

lemma rhe_ge_int: "of_int n \<le> q \<Longrightarrow> n \<le> round_half_even q"
proof -
  assume "of_int n \<le> q"
  then have "n \<le> \<lfloor>q\<rfloor>" by (simp add: le_floor_iff)
  with rhe_cases [of q] show ?thesis by auto
qed

lemma rhe_le_int: "q \<le> of_int n \<Longrightarrow> round_half_even q \<le> n"
proof (cases "q = of_int n")
  case True
  then show ?thesis by simp
next
  case False
  assume "q \<le> of_int n"
  with False have "q < of_int n" by simp
  then have "\<lfloor>q\<rfloor> < n" by (simp add: floor_less_iff)
  with rhe_cases [of q] show ?thesis by auto
qed

lemma rhe_mono: "q \<le> r \<Longrightarrow> round_half_even q \<le> round_half_even r"
proof -
  assume qr: "q \<le> r"
  then have fl: "\<lfloor>q\<rfloor> \<le> \<lfloor>r\<rfloor>" by (rule floor_mono)
  show ?thesis
  proof (cases "\<lfloor>q\<rfloor> = \<lfloor>r\<rfloor>")
    case True
    with qr have "q - of_int \<lfloor>q\<rfloor> \<le> r - of_int \<lfloor>r\<rfloor>" by simp
    with True show ?thesis
      by (auto simp: round_half_even_def Let_def)
  next
    case False
    with fl have "\<lfloor>q\<rfloor> + 1 \<le> \<lfloor>r\<rfloor>" by simp
    with rhe_cases [of q] rhe_cases [of r] show ?thesis by auto
  qed
qed

lemma rhe_nonneg: "0 \<le> q \<Longrightarrow> 0 \<le> round_half_even q"
  using rhe_ge_int [of 0 q] by simp

lemma binade_bounds:
  assumes "0 < q"
  shows "2 powi (binade q) \<le> q \<and> q < 2 powi (binade q + 1)"
proof -
  obtain a b where ab: "quotient_of q = (a, b)" by (cases "quotient_of q")
  then have b: "0 < b" and q: "q = of_int a / of_int b"
    using quotient_of_denom_pos [of q a b] quotient_of_div [of q a b] by auto
  with assms have a: "0 < a" by (simp add: zero_less_divide_iff)
  define la where "la = floorlog 2 (nat a)"
  define lb where "lb = floorlog 2 (nat b)"
  define d where "d = int la - int lb"
  have ba: "2 ^ (la - 1) \<le> nat a \<and> nat a < 2 ^ la"
    unfolding la_def using a by (intro floorlog_bounds) auto
  have bb: "2 ^ (lb - 1) \<le> nat b \<and> nat b < 2 ^ lb"
    unfolding lb_def using b by (intro floorlog_bounds) auto
  have la: "0 < la" using ba a by (cases la) auto
  have lb: "0 < lb" using bb b by (cases lb) auto
  have a1: "(2::rat) ^ (la - 1) \<le> of_int a" and a2: "of_int a < (2::rat) ^ la"
  proof -
    from ba have "int (2 ^ (la - 1)) \<le> int (nat a)" "int (nat a) < int (2 ^ la)"
      by (simp_all only: of_nat_le_iff of_nat_less_iff)
    with a have "2 ^ (la - 1) \<le> a" "a < 2 ^ la" by simp_all
    then have "(of_int (2 ^ (la - 1)) :: rat) \<le> of_int a" "(of_int a :: rat) < of_int (2 ^ la)"
      by (simp_all only: of_int_le_iff of_int_less_iff)
    then show "(2::rat) ^ (la - 1) \<le> of_int a" "of_int a < (2::rat) ^ la" by simp_all
  qed
  have b1: "(2::rat) ^ (lb - 1) \<le> of_int b" and b2: "of_int b < (2::rat) ^ lb"
  proof -
    from bb have "int (2 ^ (lb - 1)) \<le> int (nat b)" "int (nat b) < int (2 ^ lb)"
      by (simp_all only: of_nat_le_iff of_nat_less_iff)
    with b have "2 ^ (lb - 1) \<le> b" "b < 2 ^ lb" by simp_all
    then have "(of_int (2 ^ (lb - 1)) :: rat) \<le> of_int b" "(of_int b :: rat) < of_int (2 ^ lb)"
      by (simp_all only: of_int_le_iff of_int_less_iff)
    then show "(2::rat) ^ (lb - 1) \<le> of_int b" "of_int b < (2::rat) ^ lb" by simp_all
  qed
  have pla: "(2::rat) powi (int la) = 2 ^ la" and plb: "(2::rat) powi (int lb) = 2 ^ lb" by simp_all
  have up: "q < 2 powi (d + 1)"
  proof -
    have "of_int a * (2::rat) ^ (lb - 1) < 2 ^ la * of_int b"
      using a2 b1 a by (intro mult_less_le_imp_less) auto
    moreover have "(2::rat) powi (d + 1) = 2 ^ la / 2 ^ (lb - 1)"
    proof -
      have "d + 1 = int la - int (lb - 1)" using lb by (simp add: d_def)
      then show ?thesis by (simp add: power_int_diff)
    qed
    moreover have "of_int a / of_int b < (2::rat) ^ la / 2 ^ (lb - 1)"
      using calculation(1) b by (simp add: field_simps)
    ultimately show ?thesis by (simp add: q)
  qed
  have lo: "2 powi (d - 1) \<le> q"
  proof -
    have "(2::rat) ^ (la - 1) * of_int b \<le> of_int a * 2 ^ lb"
      using a1 a2 b1 b2 a b
      by (intro mult_mono) (auto simp: less_imp_le)
    moreover have "(2::rat) powi (d - 1) = 2 ^ (la - 1) / 2 ^ lb"
    proof -
      have "d - 1 = int (la - 1) - int lb" using la by (simp add: d_def)
      then show ?thesis by (simp add: power_int_diff)
    qed
    moreover have "(2::rat) ^ (la - 1) / 2 ^ lb \<le> of_int a / of_int b"
      using calculation(1) b by (simp add: field_simps)
    ultimately show ?thesis by (simp add: q)
  qed
  have bin: "binade q = (if 2 powi d \<le> q then d else d - 1)"
    by (simp add: binade_def ab Let_def d_def la_def lb_def)
  show ?thesis
  proof (cases "2 powi d \<le> q")
    case True
    with bin up show ?thesis by simp
  next
    case False
    with bin lo show ?thesis by simp
  qed
qed

lemma powi2_less_exp: "(2::rat) powi m < 2 powi n \<Longrightarrow> m < n"
proof (rule ccontr)
  assume lt: "(2::rat) powi m < 2 powi n" and "\<not> m < n"
  then have "n \<le> m" by simp
  then have "(2::rat) powi n \<le> 2 powi m" by (intro power_int_increasing) auto
  with lt show False by simp
qed

lemma binade_eqI:
  assumes "2 powi e \<le> q" "q < 2 powi (e + 1)"
  shows "binade q = e"
proof -
  have "(0::rat) < 2 powi e" by simp
  from this assms(1) have q: "0 < q" by (rule less_le_trans)
  from binade_bounds [OF q] assms
  have "(2::rat) powi binade q < 2 powi (e + 1)" "(2::rat) powi e < 2 powi (binade q + 1)"
    by auto
  then have "binade q < e + 1" "e < binade q + 1"
    by (auto dest: powi2_less_exp)
  then show ?thesis by simp
qed

lemma binade_mono:
  assumes "0 < q" "q \<le> r"
  shows "binade q \<le> binade r"
proof -
  from assms have r: "0 < r" by simp
  from binade_bounds [OF assms(1)] binade_bounds [OF r] assms(2)
  have "(2::rat) powi binade q < 2 powi (binade r + 1)" by auto
  then have "binade q < binade r + 1" by (rule powi2_less_exp)
  then show ?thesis by simp
qed

lemma to_double_cases: "to_double q = PInf \<or> (\<exists>v\<ge>0. to_double q = Fin v)"
proof (cases "q \<le> 0")
  case True
  then show ?thesis by (simp add: to_double_def)
next
  case False
  define u :: rat where "u = 2 powi (max (binade q - 52) (- 1074))"
  have u: "0 < u" by (simp add: u_def)
  with False have "0 \<le> q / u" by simp
  then have "0 \<le> round_half_even (q / u)" by (rule rhe_nonneg)
  with u have "0 \<le> of_int (round_half_even (q / u)) * u" by simp
  with False show ?thesis
    by (auto simp: to_double_def Let_def u_def)
qed

lemma to_double_eval:
  assumes "2 powi e \<le> q" "q < 2 powi (e + 1)"
  shows "to_double q =
    (let u = 2 powi (max (e - 52) (- 1074)); v = of_int (round_half_even (q / u)) * u
     in if 2 ^ 1024 \<le> v then PInf else Fin v)"
proof -
  have "(0::rat) < 2 powi e" by simp
  from this assms(1) have "0 < q" by (rule less_le_trans)
  with binade_eqI [OF assms] show ?thesis by (simp add: to_double_def)
qed

lemma to_double_zero [simp]: "to_double 0 = Fin 0"
  by (simp add: to_double_def)

lemma rhe_div:
  assumes "0 < b"
  shows "round_half_even (of_int a / of_int b) =
    (let f = a div b; r = a mod b
     in if 2 * r < b then f else if b < 2 * r then f + 1 else if even f then f else f + 1)"
proof -
  have fl: "\<lfloor>(of_int a / of_int b :: rat)\<rfloor> = a div b"
    by (simp add: floor_divide_of_int_eq)
  have "a = a div b * b + a mod b" by simp
  then have "(of_int a :: rat) = of_int (a div b) * of_int b + of_int (a mod b)"
    by (metis of_int_add of_int_mult)
  then have "(of_int a / of_int b :: rat) - of_int (a div b) = of_int (a mod b) / of_int b"
    using assms by (simp add: field_simps)
  note d = this
  have lt: "(of_int (a mod b) / of_int b :: rat) < 1 / 2 \<longleftrightarrow> 2 * (a mod b) < b"
  proof -
    have "(of_int (a mod b) / of_int b :: rat) < 1 / 2 \<longleftrightarrow> (of_int (2 * (a mod b)) :: rat) < of_int b"
      using assms by (simp add: field_simps)
    then show ?thesis by (simp only: of_int_less_iff)
  qed
  have gt: "1 / 2 < (of_int (a mod b) / of_int b :: rat) \<longleftrightarrow> b < 2 * (a mod b)"
  proof -
    have "1 / 2 < (of_int (a mod b) / of_int b :: rat) \<longleftrightarrow> (of_int b :: rat) < of_int (2 * (a mod b))"
      using assms by (simp add: field_simps)
    then show ?thesis by (simp only: of_int_less_iff)
  qed
  show ?thesis
    unfolding round_half_even_def Let_def fl d lt gt by (rule refl)
qed

lemma rhe_numeral_div [simp]:
  "round_half_even (numeral a / numeral b) =
    (let f = (numeral a :: int) div numeral b; r = (numeral a :: int) mod numeral b
     in if 2 * r < numeral b then f else if numeral b < 2 * r then f + 1
        else if even f then f else f + 1)"
proof -
  have "(0::int) < numeral b" by simp
  from rhe_div [OF this, of "numeral a"] show ?thesis by (simp only: of_int_numeral)
qed

lemma rhe_numeral [simp]: "round_half_even (numeral a) = numeral a"
  using rhe_of_int [of "numeral a"] by simp

lemma rhe_zero [simp]: "round_half_even 0 = 0"
  using rhe_of_int [of 0] by simp

lemma d080: "to_double (4 / 5) = Fin (3602879701896397 / 4503599627370496)"
  by (subst to_double_eval [of "- 1"]) (simp_all add: Let_def power_int_minus)

lemma d38: "to_double 38 = Fin 38"
  by (subst to_double_eval [of 5]) (simp_all add: Let_def power_int_minus)

lemma d125: "to_double (25 / 2) = Fin (25 / 2)"
  by (subst to_double_eval [of 3]) (simp_all add: Let_def power_int_minus)

section \<open>What a match of a pattern looks like\<close>

lemma star_greedy_set:
  "r \<in> set (star_greedy k s) \<longleftrightarrow> (\<exists>m. s = m @ r \<and> list_all (cc_match k) m)"
proof (induction s)
  case Nil
  then show ?case by auto
next
  case (Cons c cs)
  show ?case
  proof
    assume "r \<in> set (star_greedy k (c # cs))"
    then consider "r = c # cs" | "cc_match k c" "r \<in> set (star_greedy k cs)"
      by (auto split: if_splits)
    then show "\<exists>m. c # cs = m @ r \<and> list_all (cc_match k) m"
    proof cases
      case 1
      then show ?thesis by (intro exI [of _ "[]"]) simp
    next
      case 2
      with Cons obtain m where "cs = m @ r" "list_all (cc_match k) m" by auto
      with 2 show ?thesis by (intro exI [of _ "c # m"]) simp
    qed
  next
    assume "\<exists>m. c # cs = m @ r \<and> list_all (cc_match k) m"
    then obtain m where m: "c # cs = m @ r" "list_all (cc_match k) m" by auto
    show "r \<in> set (star_greedy k (c # cs))"
    proof (cases m)
      case Nil
      with m show ?thesis by auto
    next
      case (Cons x xs)
      with m have "cc_match k c" "cs = xs @ r" "list_all (cc_match k) xs" by auto
      with Cons.IH show ?thesis by auto
    qed
  qed
qed

lemma star_lazy_set:
  "r \<in> set (star_lazy k s) \<longleftrightarrow> (\<exists>m. s = m @ r \<and> list_all (cc_match k) m)"
proof (induction s)
  case Nil
  then show ?case by auto
next
  case (Cons c cs)
  show ?case
  proof
    assume "r \<in> set (star_lazy k (c # cs))"
    then consider "r = c # cs" | "cc_match k c" "r \<in> set (star_lazy k cs)"
      by (auto split: if_splits)
    then show "\<exists>m. c # cs = m @ r \<and> list_all (cc_match k) m"
    proof cases
      case 1
      then show ?thesis by (intro exI [of _ "[]"]) simp
    next
      case 2
      with Cons obtain m where "cs = m @ r" "list_all (cc_match k) m" by auto
      with 2 show ?thesis by (intro exI [of _ "c # m"]) simp
    qed
  next
    assume "\<exists>m. c # cs = m @ r \<and> list_all (cc_match k) m"
    then obtain m where m: "c # cs = m @ r" "list_all (cc_match k) m" by auto
    show "r \<in> set (star_lazy k (c # cs))"
    proof (cases m)
      case Nil
      with m show ?thesis by auto
    next
      case (Cons x xs)
      with m have "cc_match k c" "cs = xs @ r" "list_all (cc_match k) xs" by auto
      with Cons.IH show ?thesis by auto
    qed
  qed
qed

lemma times_set:
  "r \<in> set (times n k s) \<longleftrightarrow> (\<exists>m. s = m @ r \<and> length m = n \<and> list_all (cc_match k) m)"
proof (induction n k s rule: times.induct)
  case (1 k s)
  then show ?case by auto
next
  case (2 n k)
  then show ?case by auto
next
  case (3 n k c cs)
  show ?case
  proof
    assume "r \<in> set (times (Suc n) k (c # cs))"
    then have c: "cc_match k c" and "r \<in> set (times n k cs)" by (auto split: if_splits)
    with 3 obtain m where "cs = m @ r" "length m = n" "list_all (cc_match k) m" by auto
    with c show "\<exists>m. c # cs = m @ r \<and> length m = Suc n \<and> list_all (cc_match k) m"
      by (intro exI [of _ "c # m"]) simp
  next
    assume "\<exists>m. c # cs = m @ r \<and> length m = Suc n \<and> list_all (cc_match k) m"
    then obtain m where m: "c # cs = m @ r" "length m = Suc n" "list_all (cc_match k) m" by auto
    then obtain x xs where "m = x # xs" by (cases m) auto
    with m have "cc_match k c" "cs = xs @ r" "length xs = n" "list_all (cc_match k) xs" by auto
    with 3 show "r \<in> set (times (Suc n) k (c # cs))" by auto
  qed
qed

lemma rmatch_Ch_set:
  "(g, r) \<in> set (rmatch (Ch k) s) \<longleftrightarrow> (\<exists>c. s = c # r \<and> cc_match k c \<and> g = [])"
  by (cases s) auto

lemma rmatch_Star_set:
  "(g, r) \<in> set (rmatch (Star k) s) \<longleftrightarrow> (\<exists>m. s = m @ r \<and> list_all (cc_match k) m \<and> g = [])"
  by (auto simp: star_greedy_set)

lemma rmatch_Plus_set:
  "(g, r) \<in> set (rmatch (Plus k) s) \<longleftrightarrow>
     (\<exists>m. s = m @ r \<and> m \<noteq> [] \<and> list_all (cc_match k) m \<and> g = [])"
proof (cases s)
  case Nil
  then show ?thesis by auto
next
  case (Cons c cs)
  show ?thesis
  proof
    assume "(g, r) \<in> set (rmatch (Plus k) s)"
    with Cons have c: "cc_match k c" and "r \<in> set (star_greedy k cs)" and g: "g = []"
      by (auto split: if_splits)
    then obtain m where "cs = m @ r" "list_all (cc_match k) m" by (auto simp: star_greedy_set)
    with c g Cons show "\<exists>m. s = m @ r \<and> m \<noteq> [] \<and> list_all (cc_match k) m \<and> g = []"
      by (intro exI [of _ "c # m"]) simp
  next
    assume "\<exists>m. s = m @ r \<and> m \<noteq> [] \<and> list_all (cc_match k) m \<and> g = []"
    then obtain m where m: "s = m @ r" "m \<noteq> []" "list_all (cc_match k) m" "g = []" by auto
    then obtain x xs where "m = x # xs" by (cases m) auto
    with m Cons have "cc_match k c" "cs = xs @ r" "list_all (cc_match k) xs" by auto
    then have "cc_match k c" "r \<in> set (star_greedy k cs)" by (auto simp: star_greedy_set)
    with Cons m show "(g, r) \<in> set (rmatch (Plus k) s)" by auto
  qed
qed

lemma rmatch_PlusLazy_set:
  "(g, r) \<in> set (rmatch (PlusLazy k) s) \<longleftrightarrow>
     (\<exists>m. s = m @ r \<and> m \<noteq> [] \<and> list_all (cc_match k) m \<and> g = [])"
proof (cases s)
  case Nil
  then show ?thesis by auto
next
  case (Cons c cs)
  show ?thesis
  proof
    assume "(g, r) \<in> set (rmatch (PlusLazy k) s)"
    with Cons have c: "cc_match k c" and "r \<in> set (star_lazy k cs)" and g: "g = []"
      by (auto split: if_splits)
    then obtain m where "cs = m @ r" "list_all (cc_match k) m" by (auto simp: star_lazy_set)
    with c g Cons show "\<exists>m. s = m @ r \<and> m \<noteq> [] \<and> list_all (cc_match k) m \<and> g = []"
      by (intro exI [of _ "c # m"]) simp
  next
    assume "\<exists>m. s = m @ r \<and> m \<noteq> [] \<and> list_all (cc_match k) m \<and> g = []"
    then obtain m where m: "s = m @ r" "m \<noteq> []" "list_all (cc_match k) m" "g = []" by auto
    then obtain x xs where "m = x # xs" by (cases m) auto
    with m Cons have "cc_match k c" "cs = xs @ r" "list_all (cc_match k) xs" by auto
    then have "cc_match k c" "r \<in> set (star_lazy k cs)" by (auto simp: star_lazy_set)
    with Cons m show "(g, r) \<in> set (rmatch (PlusLazy k) s)" by auto
  qed
qed

lemma rmatch_Times_set:
  "(g, r) \<in> set (rmatch (Times n k) s) \<longleftrightarrow>
     (\<exists>m. s = m @ r \<and> length m = n \<and> list_all (cc_match k) m \<and> g = [])"
  by (auto simp: times_set)

lemma rmatch_Cat_set:
  "(g, r) \<in> set (rmatch (Cat r1 r2) s) \<longleftrightarrow>
     (\<exists>g1 s1 g2. (g1, s1) \<in> set (rmatch r1 s) \<and> (g2, r) \<in> set (rmatch r2 s1) \<and> g = g1 @ g2)"
proof -
  have "(g, r) \<in> set (rmatch (Cat r1 r2) s) \<longleftrightarrow>
     (\<exists>p\<in>set (rmatch r1 s). (g, r) \<in> set (map (\<lambda>(g2, s2). (fst p @ g2, s2)) (rmatch r2 (snd p))))"
    by (simp add: case_prod_unfold)
  also have "\<dots> \<longleftrightarrow> (\<exists>p\<in>set (rmatch r1 s). \<exists>q\<in>set (rmatch r2 (snd p)). g = fst p @ fst q \<and> r = snd q)"
    by (simp add: image_iff case_prod_unfold)
  also have "\<dots> \<longleftrightarrow> (\<exists>g1 s1 g2. (g1, s1) \<in> set (rmatch r1 s) \<and> (g2, r) \<in> set (rmatch r2 s1) \<and> g = g1 @ g2)"
  proof
    assume "\<exists>p\<in>set (rmatch r1 s). \<exists>q\<in>set (rmatch r2 (snd p)). g = fst p @ fst q \<and> r = snd q"
    then obtain p q where "p \<in> set (rmatch r1 s)" "q \<in> set (rmatch r2 (snd p))" "g = fst p @ fst q" "r = snd q"
      by blast
    then have "(fst p, snd p) \<in> set (rmatch r1 s)" "(fst q, r) \<in> set (rmatch r2 (snd p))" by simp_all
    with \<open>g = fst p @ fst q\<close> show "\<exists>g1 s1 g2. (g1, s1) \<in> set (rmatch r1 s) \<and> (g2, r) \<in> set (rmatch r2 s1) \<and> g = g1 @ g2"
      by blast
  next
    assume "\<exists>g1 s1 g2. (g1, s1) \<in> set (rmatch r1 s) \<and> (g2, r) \<in> set (rmatch r2 s1) \<and> g = g1 @ g2"
    then obtain g1 s1 g2 where h: "(g1, s1) \<in> set (rmatch r1 s)" "(g2, r) \<in> set (rmatch r2 s1)" "g = g1 @ g2"
      by blast
    show "\<exists>p\<in>set (rmatch r1 s). \<exists>q\<in>set (rmatch r2 (snd p)). g = fst p @ fst q \<and> r = snd q"
      by (rule bexI [OF _ h(1)], rule bexI [of _ "(g2, r)"]) (use h in simp_all)
  qed
  finally show ?thesis .
qed

lemma rmatch_Alt_set:
  "(g, r) \<in> set (rmatch (Alt r1 r2) s) \<longleftrightarrow>
     (g, r) \<in> set (rmatch r1 s) \<or> (g, r) \<in> set (rmatch r2 s)"
  by simp

lemma rmatch_suffix: "(g, r) \<in> set (rmatch x s) \<Longrightarrow> \<exists>m. s = m @ r"
proof (induction x arbitrary: g r s)
  case (Ch k)
  then show ?case unfolding rmatch_Ch_set by (auto intro: exI [of _ "[c]" for c])
next
  case (Star k)
  then show ?case unfolding rmatch_Star_set by blast
next
  case (Plus k)
  then show ?case unfolding rmatch_Plus_set by blast
next
  case (PlusLazy k)
  then show ?case unfolding rmatch_PlusLazy_set by blast
next
  case (Times n k)
  then show ?case unfolding rmatch_Times_set by blast
next
  case (Cat x1 x2)
  from Cat.prems obtain g1 s1 g2 where
    h: "(g1, s1) \<in> set (rmatch x1 s)" "(g2, r) \<in> set (rmatch x2 s1)"
    unfolding rmatch_Cat_set by blast
  from Cat.IH(1) [OF h(1)] obtain m1 where "s = m1 @ s1" by blast
  moreover from Cat.IH(2) [OF h(2)] obtain m2 where "s1 = m2 @ r" by blast
  ultimately show ?case by (intro exI [of _ "m1 @ m2"]) simp
next
  case (Alt x1 x2)
  then show ?case unfolding rmatch_Alt_set by blast
next
  case (Grp x)
  from Grp.prems obtain g' where "(g', r) \<in> set (rmatch x s)" by auto
  from Grp.IH [OF this] show ?case .
qed

lemma rmatch_Grp_set:
  "(g, r) \<in> set (rmatch (Grp x) s) \<longleftrightarrow>
     (\<exists>m g'. s = m @ r \<and> (g', r) \<in> set (rmatch x s) \<and> g = m # g')"
proof
  assume "(g, r) \<in> set (rmatch (Grp x) s)"
  then obtain g' where g': "(g', r) \<in> set (rmatch x s)" "g = take (length s - length r) s # g'"
    by auto
  from rmatch_suffix [OF g'(1)] obtain m where "s = m @ r" by auto
  with g' show "\<exists>m g'. s = m @ r \<and> (g', r) \<in> set (rmatch x s) \<and> g = m # g'" by auto
next
  assume "\<exists>m g'. s = m @ r \<and> (g', r) \<in> set (rmatch x s) \<and> g = m # g'"
  then obtain m g' where "s = m @ r" "(g', r) \<in> set (rmatch x s)" "g = m # g'" by auto
  then have "(g', r) \<in> set (rmatch x s)" "g = take (length s - length r) s # g'" by simp_all
  then show "(g, r) \<in> set (rmatch (Grp x) s)" by (force simp: image_iff)
qed

lemmas rmatch_set =
  rmatch_Ch_set rmatch_Star_set rmatch_Plus_set rmatch_PlusLazy_set rmatch_Times_set
  rmatch_Cat_set rmatch_Alt_set rmatch_Grp_set

lemma re_match_Some: "re_match x s = Some g \<Longrightarrow> \<exists>r. (g, r) \<in> set (rmatch x s)"
  by (auto simp: re_match_def split: list.splits)

lemma re_search_Some:
  "re_search x s = Some g \<Longrightarrow> \<exists>pre suf r. s = pre @ suf \<and> (g, r) \<in> set (rmatch x suf)"
proof (induction s)
  case Nil
  then show ?case using re_match_Some [of x "[]" g] by auto
next
  case (Cons c cs)
  show ?case
  proof (cases "re_match x (c # cs)")
    case None
    with Cons obtain pre suf r where "cs = pre @ suf" "(g, r) \<in> set (rmatch x suf)" by auto
    then show ?thesis by (intro exI [of _ "c # pre"] exI [of _ suf] exI [of _ r]) simp
  next
    case (Some g')
    with Cons.prems have "g' = g" by simp
    with Some re_match_Some [of x "c # cs" g] obtain r where "(g, r) \<in> set (rmatch x (c # cs))"
      by auto
    then show ?thesis by (intro exI [of _ "[]"] exI [of _ "c # cs"] exI [of _ r]) simp
  qed
qed

lemma to_double_exact:
  assumes m: "0 < m" "m < 2 ^ 53" and k: "- 1074 \<le> k" and q: "q = of_int m * 2 powi k"
    and big: "q < 2 ^ 1024"
  shows "to_double q = Fin q"
proof -
  have q0: "0 < q" using m by (simp add: q)
  define e where "e = binade q"
  define ue where "ue = max (e - 52) (- 1074)"
  from binade_bounds [OF q0] have lo: "2 powi e \<le> q" by (simp add: e_def)
  have "(of_int m :: rat) < of_int (2 ^ 53)" using m(2) by (simp only: of_int_less_iff)
  then have "(of_int m :: rat) < 2 powi 53" by simp
  then have "q < 2 powi 53 * 2 powi k" by (simp add: q)
  also have "\<dots> = 2 powi (53 + k)" by (simp add: power_int_add)
  finally have "(2::rat) powi e < 2 powi (53 + k)" using lo by simp
  then have "e < 53 + k" by (rule powi2_less_exp)
  with k have uek: "ue \<le> k" by (simp add: ue_def)
  have "q / 2 powi ue = of_int m * 2 powi (k - ue)"
    by (simp add: q power_int_diff)
  also have "\<dots> = of_int m * 2 ^ nat (k - ue)"
    using uek by (simp add: power_int_def)
  also have "\<dots> = of_int (m * 2 ^ nat (k - ue))" by simp
  finally have "round_half_even (q / 2 powi ue) = m * 2 ^ nat (k - ue)"
    by (simp only: rhe_of_int)
  then have "(of_int (round_half_even (q / 2 powi ue)) :: rat) * 2 powi ue
      = of_int m * (2 ^ nat (k - ue) * 2 powi ue)"
    by simp
  also have "(2::rat) ^ nat (k - ue) * 2 powi ue = 2 powi (k - ue) * 2 powi ue"
    using uek by (simp add: power_int_def)
  also have "\<dots> = 2 powi k" by (simp flip: power_int_add)
  finally have v: "of_int (round_half_even (q / 2 powi ue)) * 2 powi ue = q" by (simp add: q)
  show ?thesis
    using q0 big v by (simp add: to_double_def Let_def ue_def e_def)
qed

lemma to_double_of_nat:
  assumes "n < 2 ^ 53"
  shows "to_double (of_nat n) = Fin (of_nat n)"
proof (cases "n = 0")
  case True
  then show ?thesis by simp
next
  case False
  have "int n < 2 ^ 53" using assms by (metis of_nat_less_iff of_nat_numeral of_nat_power)
  moreover have "(of_nat n :: rat) < 2 ^ 1024"
  proof -
    have "n < (2::nat) ^ 1024" using assms by (rule less_trans) simp
    then show ?thesis by (metis of_nat_less_iff of_nat_numeral of_nat_power)
  qed
  ultimately show ?thesis
    using False by (intro to_double_exact [of "int n" 0]) auto
qed

lemma to_double_numeral [simp]:
  "numeral n < (2::nat) ^ 53 \<Longrightarrow> to_double (numeral n) = Fin (numeral n)"
  using to_double_of_nat [of "numeral n"] by simp

lemma to_double_one [simp]: "to_double 1 = Fin 1"
  using to_double_of_nat [of 1] by simp


lemmas text_eval = ascii_def is_space_def is_digit_def digit_val_def digit_zeros_def dval_def
  lstrip_def rstrip_def strip_def is_linebreak_def replace_def

section \<open>The catalog in document order\<close>

lemma extract_part_append: "extract_part produtos part = produtos @ extract_part [] part"
  by (simp add: extract_part_def Let_def split: option.splits list.splits sum.splits)

lemma foldl_extract_part:
  "foldl extract_part produtos parts = produtos @ concat (map (extract_part []) parts)"
proof (induction parts arbitrary: produtos)
  case Nil
  then show ?case by simp
next
  case (Cons p ps)
  show ?case
    by (simp add: Cons.IH [of "extract_part produtos p"]) (subst extract_part_append, simp)
qed

definition extract_line :: "ustr \<Rightarrow> Produto list" where
  "extract_line line = concat (map (extract_part []) (split_on 124 line))"

lemma foldl_extract_line:
  "foldl (\<lambda>produtos line. foldl extract_part produtos (split_on 124 line)) produtos lines =
     produtos @ concat (map extract_line lines)"
  by (induction lines arbitrary: produtos) (simp_all add: foldl_extract_part extract_line_def)

lemma extract_products_concat:
  "extract_products pdf_text = concat (map extract_line (splitlines pdf_text))"
  by (simp add: extract_products_def foldl_extract_line)

lemma set_strip: "set (strip s) \<subseteq> set s"
proof -
  have "set (rev (dropWhile is_space (rev (dropWhile is_space s)))) \<subseteq> set (dropWhile is_space s)"
    using set_dropWhileD [of _ is_space "rev (dropWhile is_space s)"] by auto
  also have "\<dots> \<subseteq> set s" using set_dropWhileD [of _ is_space s] by auto
  finally show ?thesis by (simp add: strip_def rstrip_def lstrip_def)
qed


lemma set_split_on: "p \<in> set (split_on sep s) \<Longrightarrow> set p \<subseteq> set s"
proof (induction s arbitrary: p)
  case Nil
  then show ?case by simp
next
  case (Cons c cs)
  show ?case
  proof (cases "c = sep")
    case True
    with Cons show ?thesis by auto
  next
    case False
    show ?thesis
    proof (cases "split_on sep cs")
      case Nil
      with False Cons.prems show ?thesis by simp
    next
      case (Cons q qs)
      with False Cons.prems have "p = c # q \<or> p \<in> set qs" by simp
      with Cons Cons.IH [of q] Cons.IH [of p] show ?thesis by auto
    qed
  qed
qed

lemma set_after_break: "set (after_break c r) \<subseteq> set r"
  by (cases r) auto

lemma set_splitlines: "l \<in> set (splitlines s) \<Longrightarrow> set l \<subseteq> set s"
proof (induction s arbitrary: l rule: splitlines.induct)
  case (1 s)
  show ?case
  proof (cases "s = []")
    case True
    with "1.prems" show ?thesis by (simp add: splitlines.simps)
  next
    case ne: False
    show ?thesis
    proof (cases "dropWhile (\<lambda>c. \<not> is_linebreak c) s")
      case Nil
      with ne "1.prems" show ?thesis by (simp add: splitlines.simps [of s])
    next
      case (Cons c r)
      have r: "set r \<subseteq> set s"
        using set_dropWhileD [of _ "\<lambda>c. \<not> is_linebreak c" s] Cons by auto
      from ne Cons "1.prems"
      have "l = takeWhile (\<lambda>c. \<not> is_linebreak c) s \<or> l \<in> set (splitlines (after_break c r))"
        by (simp add: splitlines.simps [of s])
      then show ?thesis
      proof
        assume "l = takeWhile (\<lambda>c. \<not> is_linebreak c) s"
        then show ?thesis using set_takeWhileD [of _ "\<lambda>c. \<not> is_linebreak c" s] by auto
      next
        assume "l \<in> set (splitlines (after_break c r))"
        from "1.IH" [OF ne Cons this] set_after_break [of c r] r show ?thesis by blast
      qed
    qed
  qed
qed

definition catalog_segment :: "ustr \<Rightarrow> ustr \<Rightarrow> pyfloat \<Rightarrow> bool" where
  "catalog_segment s nome preco \<longleftrightarrow>
     (\<exists>pre g1 w1 w2 w3 ds sep d1 d2 rest.
        s = pre @ g1 @ w1 @ [8212] @ w2 @ [82, 36] @ w3 @ ds @ [sep, d1, d2] @ rest \<and>
        g1 \<noteq> [] \<and> 10 \<notin> set g1 \<and> list_all is_space (w1 @ w2 @ w3) \<and>
        ds \<noteq> [] \<and> list_all is_digit (ds @ [d1, d2]) \<and> (sep = 44 \<or> sep = 46) \<and>
        nome = strip g1 \<and>
        preco = to_double (of_nat (digits_value (ds @ [d1, d2])) / 100))"

lemma length_2E: "length m = Suc (Suc 0) \<Longrightarrow> \<exists>x y. m = [x, y]"
  by (cases m; cases "tl m") auto

lemma pattern_shape:
  assumes "(g, rest) \<in> set (rmatch pattern s)"
  shows "\<exists>g1 w1 w2 w3 ds sep d1 d2.
      s = g1 @ w1 @ [8212] @ w2 @ [82, 36] @ w3 @ ds @ [sep, d1, d2] @ rest \<and>
      g = [g1, ds @ [sep, d1, d2]] \<and>
      g1 \<noteq> [] \<and> 10 \<notin> set g1 \<and> list_all is_space (w1 @ w2 @ w3) \<and>
      ds \<noteq> [] \<and> list_all is_digit (ds @ [d1, d2]) \<and> (sep = 44 \<or> sep = 46)"
proof -
  from assms obtain g1 w1 w2 w3 ds sep dd where
    s: "s = g1 @ w1 @ [8212] @ w2 @ [82, 36] @ w3 @ ds @ [sep] @ dd @ rest"
    and g: "g = [g1, ds @ [sep] @ dd]"
    and g1: "g1 \<noteq> []" "list_all (cc_match AnyChar) g1"
    and w: "list_all (cc_match Space) w1" "list_all (cc_match Space) w2" "list_all (cc_match Space) w3"
    and ds: "ds \<noteq> []" "list_all (cc_match Digit) ds"
    and sep: "cc_match (InSet [44, 46]) sep"
    and dd: "length dd = Suc (Suc 0)" "list_all (cc_match Digit) dd"
    unfolding pattern_def rmatch_set by (elim exE conjE) auto
  from length_2E [OF dd(1)] obtain d1 d2 where dd2: "dd = [d1, d2]" by auto
  show ?thesis
    apply (rule exI [of _ g1], rule exI [of _ w1], rule exI [of _ w2], rule exI [of _ w3],
           rule exI [of _ ds], rule exI [of _ sep], rule exI [of _ d1], rule exI [of _ d2])
    using s g g1 w ds sep dd dd2 by (auto simp: list_all_iff)
qed

lemma not_digit_sep: "is_digit c \<Longrightarrow> c \<noteq> 44 \<and> c \<noteq> 46"
  by (auto simp: is_digit_def digit_val_def digit_zeros_def)

lemma py_float_amount:
  assumes "ds \<noteq> []" "list_all is_digit (ds @ [d1, d2])" "sep = 44 \<or> sep = 46"
  shows "py_float (replace 44 46 (ds @ [sep, d1, d2])) =
           Inr (to_double (of_nat (digits_value (ds @ [d1, d2])) / 100))"
proof -
  from assms(2) have dig: "\<forall>c\<in>set ds. is_digit c" "is_digit d1" "is_digit d2"
    by (auto simp: list_all_iff)
  with not_digit_sep have ne: "\<forall>c\<in>set ds. c \<noteq> 44" "d1 \<noteq> 44" "d2 \<noteq> 44" by auto
  have "map (\<lambda>c. if c = 44 then 46 else c) ds = ds"
    using ne(1) by (induction ds) auto
  with ne assms(3) have rep: "replace 44 46 (ds @ [sep, d1, d2]) = ds @ [46, d1, d2]"
    by (auto simp: replace_def)
  have nd: "\<not> is_digit 46" by (simp add: is_digit_def digit_val_def digit_zeros_def)
  have tw: "takeWhile is_digit (ds @ [46, d1, d2]) = ds"
    using dig(1) nd by (simp add: takeWhile_append2)
  have dw: "dropWhile is_digit (ds @ [46, d1, d2]) = [46, d1, d2]"
    using dig(1) nd by (simp add: dropWhile_append2)
  show ?thesis
    unfolding rep py_float_def tw dw Let_def using dig assms(1) by simp
qed

lemma extract_part_entry:
  assumes "extract_part [] part \<noteq> []"
  shows "\<exists>nome preco. extract_part [] part = [(nome, preco)] \<and> catalog_segment (strip part) nome preco"
proof -
  from assms obtain g where g: "re_search pattern (strip part) = Some g"
    by (cases "re_search pattern (strip part)") (auto simp: extract_part_def)
  from re_search_Some [OF g] obtain pre suf r where
    ps: "strip part = pre @ suf" "(g, r) \<in> set (rmatch pattern suf)" by blast
  from pattern_shape [OF ps(2)] obtain g1 w1 w2 w3 ds sep d1 d2 where
    sh: "suf = g1 @ w1 @ [8212] @ w2 @ [82, 36] @ w3 @ ds @ [sep, d1, d2] @ r"
      "g = [g1, ds @ [sep, d1, d2]]"
      "g1 \<noteq> []" "10 \<notin> set g1" "list_all is_space (w1 @ w2 @ w3)"
      "ds \<noteq> []" "list_all is_digit (ds @ [d1, d2])" "sep = 44 \<or> sep = 46"
    by blast
  define preco where "preco = to_double (of_nat (digits_value (ds @ [d1, d2])) / 100)"
  have "extract_part [] part = [(strip g1, preco)]"
    using g sh(2) py_float_amount [OF sh(6,7,8)] by (simp add: extract_part_def preco_def)
  moreover have "catalog_segment (strip part) (strip g1) preco"
    unfolding catalog_segment_def
    apply (rule exI [of _ pre], rule exI [of _ g1], rule exI [of _ w1], rule exI [of _ w2],
           rule exI [of _ w3], rule exI [of _ ds], rule exI [of _ sep], rule exI [of _ d1],
           rule exI [of _ d2], rule exI [of _ r])
    using ps(1) sh preco_def by simp
  ultimately show ?thesis by blast
qed

lemma catalog_segment_dash: "catalog_segment s nome preco \<Longrightarrow> 8212 \<in> set s"
  by (auto simp: catalog_segment_def)

lemma extract_part_no_dash: "8212 \<notin> set part \<Longrightarrow> extract_part [] part = []"
  using extract_part_entry [of part] catalog_segment_dash set_strip [of part] by blast

lemma to_double_nonneg: "fge (to_double q) (Fin 0)"
  using to_double_cases [of q] by auto

definition price_positive :: "Produto \<Rightarrow> bool" where
  "price_positive p \<longleftrightarrow> fgt (snd p) (Fin 0)"

definition price_nonneg :: "Produto \<Rightarrow> bool" where
  "price_nonneg p \<longleftrightarrow> fge (snd p) (Fin 0)"

lemma extract_part_nonneg: "list_all price_nonneg (extract_part [] part)"
proof (cases "extract_part [] part = []")
  case True
  then show ?thesis by simp
next
  case False
  from extract_part_entry [OF this] show ?thesis
    by (auto simp: catalog_segment_def price_nonneg_def to_double_nonneg)
qed

lemma extract_products_three_digits:
  "extract_products (ascii ''Nome '' @ [8212] @ ascii '' R$12,500'') = [(ascii ''Nome'', Fin (25 / 2))]"
  unfolding extract_products_def
  apply (simp add: text_eval splitlines.simps)
  apply (simp add: extract_part_def text_eval re_match_def pattern_def)
  apply (simp add: py_float_def text_eval d125)
  done

lemma extract_products_zero_price:
  "extract_products (ascii ''X '' @ [8212] @ ascii '' R$0,00'') = [(ascii ''X'', Fin 0)]"
  unfolding extract_products_def
  apply (simp add: text_eval splitlines.simps)
  apply (simp add: extract_part_def text_eval re_match_def pattern_def)
  apply (simp add: py_float_def text_eval)
  done

text \<open>
  C10, as amended: for every document text, every catalog entry that extraction produces
  has a unit price greater than or equal to 0 (a non-negative double, or \<open>inf\<close>); no
  price is negative or \<open>nan\<close>.
\<close>

theorem extract_products_price_nonneg: "list_all price_nonneg (extract_products pdf_text)"
  by (simp add: extract_products_concat extract_line_def list_all_iff)
     (use extract_part_nonneg in \<open>auto simp: list_all_iff\<close>)

text \<open>
  C10 as stated fails: the text \<open>X D R$0,00\<close> (\<open>D\<close> the em dash) gives an entry whose
  price is 0, which is not strictly greater than 0.
\<close>

theorem extract_products_price_zero_counterexample:
  "\<not> list_all price_positive (extract_products (ascii ''X '' @ [8212] @ ascii '' R$0,00''))"
  using extract_products_zero_price by (simp add: price_positive_def)

lemma extract_products_no_dash:
  assumes "8212 \<notin> set pdf_text"
  shows "extract_products pdf_text = []"
proof -
  have "extract_part [] part = []"
    if "line \<in> set (splitlines pdf_text)" "part \<in> set (split_on 124 line)" for line part
  proof -
    from that set_splitlines [of line pdf_text] set_split_on [of part 124 line] assms
    have "8212 \<notin> set part" by blast
    then show ?thesis by (rule extract_part_no_dash)
  qed
  then show ?thesis by (simp add: extract_products_concat extract_line_def)
qed

text \<open>
  C3, as amended: a part of a line in which the pattern finds no match leaves the
  catalog as it was, and a text with no em dash (no separator of name and price) yields
  no entry at all. An amount with three fractional digits is no failure of the pattern:
  its first two fractional digits are read, so \<open>Nome D R$12,500\<close> (\<open>D\<close> the em dash)
  yields the entry \<open>Nome\<close> at 12.50.
\<close>

theorem extract_products_unmatched_part_skipped:
  "(re_search pattern (strip part) = None \<longrightarrow> extract_part produtos part = produtos) \<and>
   (8212 \<notin> set pdf_text \<longrightarrow> extract_products pdf_text = []) \<and>
   extract_products (ascii ''Nome '' @ [8212] @ ascii '' R$12,500'') = [(ascii ''Nome'', Fin (25 / 2))]"
  using extract_products_no_dash [of pdf_text] extract_products_three_digits
  by (simp add: extract_part_def)

theorem extract_products_unmatched_part_skipped_witness:
  "re_search pattern (strip (ascii ''Bolo 38,00'')) = None \<and>
   extract_part [(ascii ''A'', Fin 1)] (ascii ''Bolo 38,00'') = [(ascii ''A'', Fin 1)] \<and>
   8212 \<notin> set (ascii ''Bolo 38,00'') \<and> extract_products (ascii ''Bolo 38,00'') = []"
proof -
  have n: "re_search pattern (strip (ascii ''Bolo 38,00'')) = None"
    by (simp add: text_eval re_match_def pattern_def)
  have d: "8212 \<notin> set (ascii ''Bolo 38,00'')" by (simp add: ascii_def)
  from extract_products_unmatched_part_skipped
    [of "ascii ''Bolo 38,00''" "[(ascii ''A'', Fin 1)]" "ascii ''Bolo 38,00''"] n d
  show ?thesis by blast
qed

text \<open>
  C3 as stated fails: the segment \<open>Nome D R$12,500\<close>, whose amount has three fractional
  digits, is not skipped; it contributes an entry.
\<close>

theorem extract_products_three_digits_counterexample:
  "extract_products (ascii ''Nome '' @ [8212] @ ascii '' R$12,500'') \<noteq> []"
  using extract_products_three_digits by simp

text \<open>The price list of the end-to-end scenarios, its two lines joined by a line feed.\<close>

definition example_catalog_text :: ustr where
  "example_catalog_text =
     ascii ''P'' @ [227] @ ascii ''o Franc'' @ [234] @ ascii ''s '' @ [8212] @ ascii '' R$0,80'' @ [10] @
     ascii ''Bolo Inteiro Chocolate '' @ [8212] @ ascii '' R$38,00''"

definition pao_frances :: ustr where
  "pao_frances = ascii ''P'' @ [227] @ ascii ''o Franc'' @ [234] @ ascii ''s''"

text \<open>The float \<open>0.80\<close>: the double nearest to 4/5.\<close>

definition price_080 :: pyfloat where
  "price_080 = Fin (3602879701896397 / 4503599627370496)"

definition example_catalog :: "Produto list" where
  "example_catalog = [(pao_frances, price_080), (ascii ''Bolo Inteiro Chocolate'', Fin 38)]"

lemma price_080_nearest: "price_080 = to_double (4 / 5)"
  by (simp add: price_080_def d080)

lemma extract_products_example: "extract_products example_catalog_text = example_catalog"
  unfolding extract_products_def example_catalog_text_def example_catalog_def pao_frances_def
    price_080_def
  apply (simp add: text_eval splitlines.simps)
  apply (simp add: extract_part_def text_eval re_match_def pattern_def)
  apply (simp add: py_float_def text_eval d080)
  done

lemma extract_products_two_on_a_line:
  "extract_products (ascii ''A '' @ [8212] @ ascii '' R$1,00 | B '' @ [8212] @ ascii '' R$2,00'')
     = [(ascii ''A'', Fin 1), (ascii ''B'', Fin 2)]"
  unfolding extract_products_def
  apply (simp add: text_eval splitlines.simps)
  apply (simp add: extract_part_def text_eval re_match_def pattern_def)
  apply (simp add: py_float_def text_eval)
  done

section \<open>Splitting the order\<close>

text \<open>
  The splitting as the specification words it: the text is cut at every comma and at
  every \<open>' e '\<close> (space, letter e, space), read from the left.
\<close>

fun split_spec :: "ustr \<Rightarrow> ustr list" where
  "split_spec [] = [[]]"
| "split_spec (c # cs) =
     (if c = 44 then [] # split_spec cs
      else if c = 32 \<and> take 2 cs = [101, 32] then [] # split_spec (drop 2 cs)
      else (case split_spec cs of [] \<Rightarrow> [[c]] | p # ps \<Rightarrow> (c # p) # ps))"

lemma rmatch_split_pattern:
  "rmatch split_pattern (c # cs) =
     (if c = 44 then [([], cs)]
      else if c = 32 \<and> take 2 cs = [101, 32] then [([], drop 2 cs)] else [])"
proof (cases cs)
  case Nil
  then show ?thesis by (simp add: split_pattern_def)
next
  case (Cons d ds)
  then show ?thesis by (cases ds) (auto simp: split_pattern_def)
qed

lemma split_spec_nonempty: "split_spec s \<noteq> []"
  by (induction s rule: split_spec.induct) (auto split: list.splits)

lemma re_split_from_spec:
  "re_split_from split_pattern cur s = (rev cur @ hd (split_spec s)) # tl (split_spec s)"
proof (induction s arbitrary: cur rule: split_spec.induct)
  case 1
  then show ?case by simp
next
  case (2 c cs)
  show ?case
  proof (cases "c = 44")
    case True
    with "2.IH"(1) [of "[]"] split_spec_nonempty [of cs] show ?thesis
      by (simp add: rmatch_split_pattern)
  next
    case c: False
    show ?thesis
    proof (cases "c = 32 \<and> take 2 cs = [101, 32]")
      case True
      with c "2.IH"(2) [of "[]"] split_spec_nonempty [of "drop 2 cs"] show ?thesis
        by (simp add: rmatch_split_pattern)
    next
      case False
      with c "2.IH"(3) [of "c # cur"] split_spec_nonempty [of cs] show ?thesis
        by (cases "split_spec cs") (auto simp: rmatch_split_pattern)
    qed
  qed
qed

lemma re_split_spec: "re_split split_pattern s = split_spec s"
  using re_split_from_spec [of "[]" s] split_spec_nonempty [of s]
  by (simp add: re_split_def)

section \<open>The quantity and the name of a fragment\<close>

lemma is_space_list:
  "is_space c \<longleftrightarrow> c \<in> set [9, 10, 11, 12, 13, 28, 29, 30, 31, 32, 133, 160, 5760, 8192, 8193,
     8194, 8195, 8196, 8197, 8198, 8199, 8200, 8201, 8202, 8232, 8233, 8239, 8287, 12288]"
  unfolding is_space_def by (simp only: set_simps insert_iff empty_iff) arith

lemma spaces_not_digits:
  "\<forall>c\<in>set [9, 10, 11, 12, 13, 28, 29, 30, 31, 32, 133, 160, 5760, 8192, 8193,
     8194, 8195, 8196, 8197, 8198, 8199, 8200, 8201, 8202, 8232, 8233, 8239, 8287, 12288].
     \<not> is_digit c"
  by (simp add: is_digit_def digit_val_def digit_zeros_def)

lemma digit_not_space: "is_digit c \<Longrightarrow> \<not> is_space c"
proof
  assume d: "is_digit c" and "is_space c"
  then have "c \<in> set [9, 10, 11, 12, 13, 28, 29, 30, 31, 32, 133, 160, 5760, 8192, 8193,
     8194, 8195, 8196, 8197, 8198, 8199, 8200, 8201, 8202, 8232, 8233, 8239, 8287, 12288]"
    by (simp only: is_space_list)
  with spaces_not_digits have "\<not> is_digit c" by (rule bspec)
  then show False using d by simp
qed

lemma cc_match_eta:
  "cc_match Digit = is_digit" "cc_match Space = is_space" "cc_match AnyChar = (\<lambda>c. c \<noteq> 10)"
  by (rule ext, simp)+

lemma star_greedy_head: "\<exists>t. star_greedy k s = dropWhile (cc_match k) s # t"
  by (induction s) auto

lemma rmatch_Plus_head:
  "cc_match k c \<Longrightarrow> \<exists>t. rmatch (Plus k) (c # cs) = ([], dropWhile (cc_match k) (c # cs)) # t"
  using star_greedy_head [of k cs] by auto

lemma rmatch_Grp_head:
  "rmatch r s = (g, s') # t \<Longrightarrow>
     \<exists>t'. rmatch (Grp r) s = (take (length s - length s') s # g, s') # t'"
  by simp

lemma rmatch_Cat_head:
  "rmatch r1 s = (g1, s1) # t1 \<Longrightarrow> rmatch r2 s1 = (g2, s2) # t2 \<Longrightarrow>
     \<exists>t. rmatch (Cat r1 r2) s = (g1 @ g2, s2) # t"
  by simp

lemma take_takeWhile: "take (length s - length (dropWhile P s)) s = takeWhile P s"
proof -
  have "length s = length (takeWhile P s) + length (dropWhile P s)"
    by (metis length_append takeWhile_dropWhile_id)
  then have l: "length s - length (dropWhile P s) = length (takeWhile P s)" by simp
  have "take (length (takeWhile P s)) (takeWhile P s @ dropWhile P s) = takeWhile P s"
    by (simp only: take_all_iff append_take_drop_id take_append diff_self_eq_0 take_0 append_Nil2 order_refl)
  then show ?thesis by (simp only: l takeWhile_dropWhile_id)
qed

text \<open>
  What the specification says of a fragment, with the two points in which the code is
  narrower written out: the name ends at the first line feed, and a quantity of more
  than 4300 digits is refused.
\<close>

definition parse_spec :: "ustr \<Rightarrow> error + nat \<times> ustr" where
  "parse_spec p =
     (let ds = takeWhile is_digit p; rest = dropWhile is_digit p; r = dropWhile is_space rest
      in if ds \<noteq> [] \<and> r \<noteq> rest
         then if int_max_str_digits < length ds then Inl ValueError
              else Inr (digits_value ds, strip (takeWhile (\<lambda>c. c \<noteq> 10) r))
         else Inr (1, p))"

lemma re_match_qtd_some:
  assumes ds: "takeWhile is_digit p \<noteq> []"
    and ws: "dropWhile is_space (dropWhile is_digit p) \<noteq> dropWhile is_digit p"
    and r: "dropWhile is_space (dropWhile is_digit p) \<noteq> []"
  shows "re_match qtd_pattern p =
    Some [takeWhile is_digit p,
          takeWhile (\<lambda>c. c \<noteq> 10) (dropWhile is_space (dropWhile is_digit p))]"
proof -
  define rest where "rest = dropWhile is_digit p"
  define r where "r = dropWhile is_space rest"
  from ds obtain c cs where p: "p = c # cs" and c: "is_digit c"
    by (cases p) (auto split: if_splits)
  from ws obtain w wr where rest: "rest = w # wr" and w: "is_space w"
    unfolding rest_def by (cases "dropWhile is_digit p") (auto split: if_splits)
  from assms(3) obtain x xr where rr: "r = x # xr"
    unfolding r_def rest_def by (cases "dropWhile is_space (dropWhile is_digit p)") auto
  have "\<not> is_space x" using rr hd_dropWhile [of is_space rest] by (simp add: r_def)
  then have x: "x \<noteq> 10" by (auto simp: is_space_def)
  from rmatch_Plus_head [of Digit c cs] c p obtain t1 where
    "rmatch (Plus Digit) p = ([], rest) # t1" by (auto simp: rest_def cc_match_eta)
  from rmatch_Grp_head [OF this] obtain t1' where
    g1: "rmatch (Grp (Plus Digit)) p = ([takeWhile is_digit p], rest) # t1'"
    by (auto simp: rest_def take_takeWhile)
  from rmatch_Plus_head [of Space w wr] w rest obtain t2 where
    g2: "rmatch (Plus Space) rest = ([], r) # t2" by (auto simp: r_def cc_match_eta)
  from rmatch_Plus_head [of AnyChar x xr] x rr obtain t3 where
    "rmatch (Plus AnyChar) r = ([], dropWhile (\<lambda>c. c \<noteq> 10) r) # t3"
    by (auto simp: cc_match_eta)
  from rmatch_Grp_head [OF this] obtain t3' where
    g3: "rmatch (Grp (Plus AnyChar)) r =
      ([takeWhile (\<lambda>c. c \<noteq> 10) r], dropWhile (\<lambda>c. c \<noteq> 10) r) # t3'"
    by (auto simp: take_takeWhile)
  from rmatch_Cat_head [OF g2 g3] obtain t4 where
    g4: "rmatch (Cat (Plus Space) (Grp (Plus AnyChar))) rest =
      ([takeWhile (\<lambda>c. c \<noteq> 10) r], dropWhile (\<lambda>c. c \<noteq> 10) r) # t4" by auto
  from rmatch_Cat_head [OF g1 g4] obtain t5 where
    "rmatch qtd_pattern p =
      ([takeWhile is_digit p, takeWhile (\<lambda>c. c \<noteq> 10) r], dropWhile (\<lambda>c. c \<noteq> 10) r) # t5"
    by (auto simp: qtd_pattern_def)
  then show ?thesis by (simp add: re_match_def r_def rest_def)
qed

lemma takeWhile_all: "list_all P m \<Longrightarrow> \<not> P x \<Longrightarrow> takeWhile P (m @ x # xs) = m"
  by (induction m) auto

lemma dropWhile_all: "list_all P m \<Longrightarrow> \<not> P x \<Longrightarrow> dropWhile P (m @ x # xs) = x # xs"
  by (induction m) auto

lemma re_match_qtd_shape:
  assumes "(g, r') \<in> set (rmatch qtd_pattern p)"
  shows "takeWhile is_digit p \<noteq> [] \<and>
         dropWhile is_space (dropWhile is_digit p) \<noteq> dropWhile is_digit p"
proof -
  from assms obtain m1 m2 m3 where
    p: "p = m1 @ m2 @ m3 @ r'" and m1: "m1 \<noteq> []" "list_all (cc_match Digit) m1"
    and m2: "m2 \<noteq> []" "list_all (cc_match Space) m2"
    unfolding qtd_pattern_def rmatch_set by (elim exE conjE) auto
  from m2 obtain w wr where w: "m2 = w # wr" "is_space w" by (cases m2) auto
  then have nd: "\<not> is_digit w" using digit_not_space by blast
  from m1 have m1': "list_all is_digit m1" by (simp add: list_all_iff)
  have "takeWhile is_digit p = m1" "dropWhile is_digit p = w # wr @ m3 @ r'"
    using takeWhile_all [OF m1' nd, of "wr @ m3 @ r'"] dropWhile_all [OF m1' nd, of "wr @ m3 @ r'"]
    by (simp_all add: p w)
  moreover have "dropWhile is_space (w # wr @ m3 @ r') \<noteq> w # wr @ m3 @ r'"
    using length_dropWhile_le [of is_space "wr @ m3 @ r'"] w(2)
    by (auto dest: arg_cong [where f = length])
  ultimately show ?thesis using m1 by simp
qed

lemma re_match_qtd_none:
  assumes "takeWhile is_digit p = [] \<or>
           dropWhile is_space (dropWhile is_digit p) = dropWhile is_digit p"
  shows "re_match qtd_pattern p = None"
proof (cases "rmatch qtd_pattern p")
  case Nil
  then show ?thesis by (simp add: re_match_def)
next
  case (Cons x xs)
  then have "(fst x, snd x) \<in> set (rmatch qtd_pattern p)" by simp
  from re_match_qtd_shape [OF this] assms show ?thesis by blast
qed

lemma parse_item_spec:
  assumes "p \<noteq> []" "\<not> is_space (last p)"
  shows "parse_item p = parse_spec p"
proof (cases "takeWhile is_digit p \<noteq> [] \<and>
              dropWhile is_space (dropWhile is_digit p) \<noteq> dropWhile is_digit p")
  case False
  with re_match_qtd_none [of p] show ?thesis
    by (auto simp: parse_item_def parse_spec_def Let_def)
next
  case True
  have r: "dropWhile is_space (dropWhile is_digit p) \<noteq> []"
  proof
    assume e: "dropWhile is_space (dropWhile is_digit p) = []"
    then have "\<forall>c\<in>set (dropWhile is_digit p). is_space c" by (simp add: dropWhile_eq_Nil_conv)
    moreover have "dropWhile is_digit p \<noteq> []"
    proof
      assume "dropWhile is_digit p = []"
      have "dropWhile is_space (dropWhile is_digit p) = dropWhile is_digit p"
        unfolding \<open>dropWhile is_digit p = []\<close> by simp
      with True show False by simp
    qed
    moreover have "last p = last (dropWhile is_digit p)"
      using \<open>dropWhile is_digit p \<noteq> []\<close>
      by (metis last_appendR takeWhile_dropWhile_id)
    moreover have "last (dropWhile is_digit p) \<in> set (dropWhile is_digit p)"
      using \<open>dropWhile is_digit p \<noteq> []\<close> by (rule last_in_set)
    ultimately have "is_space (last p)" by simp
    with assms(2) show False by simp
  qed
  have ds: "list_all is_digit (takeWhile is_digit p)"
    by (simp add: list_all_iff) (meson set_takeWhileD)
  from True re_match_qtd_some [OF _ _ r, of ] ds show ?thesis
    by (auto simp: parse_item_def parse_spec_def Let_def py_int_def)
qed

section \<open>Normalising plain text\<close>

lemma foldl_place_ccc0:
  "\<forall>c\<in>set s. ccc c = 0 \<Longrightarrow> foldl (\<lambda>out c. place c out) acc s = rev s @ acc"
proof (induction s arbitrary: acc)
  case Nil
  then show ?case by simp
next
  case (Cons c s)
  then have "place c acc = c # acc" by (cases acc) auto
  with Cons show ?case by simp
qed

lemma canonical_order_ccc0: "\<forall>c\<in>set s. ccc c = 0 \<Longrightarrow> canonical_order s = s"
  by (simp add: canonical_order_def foldl_place_ccc0)

lemma decomp_plain: "c < 192 \<Longrightarrow> decomp c = [c]"
  by (simp add: decomp_def decomp_table_def)

lemma ccc_plain: "c < 192 \<Longrightarrow> ccc c = 0"
  by (simp add: ccc_def)

lemma Mn_plain: "c < 192 \<Longrightarrow> \<not> is_Mn c"
  by (simp add: is_Mn_def)

lemma remover_acentos_plain:
  assumes "\<forall>c\<in>set s. c < 192"
  shows "remover_acentos s = s"
proof -
  have "concat (map decomp s) = s" using assms by (induction s) (simp_all add: decomp_plain)
  moreover have "canonical_order s = s" using assms by (intro canonical_order_ccc0) (simp add: ccc_plain)
  moreover have "filter (\<lambda>c. \<not> is_Mn c) s = s" using assms by (simp add: Mn_plain)
  ultimately show ?thesis by (simp add: remover_acentos_def nfd_def)
qed

text \<open>Text without capital or accented letters is its own normal form.\<close>

definition plain :: "ustr \<Rightarrow> bool" where
  "plain s \<longleftrightarrow> list_all (\<lambda>c. c < 192 \<and> \<not> (65 \<le> c \<and> c \<le> 90)) s"

lemma normalize_plain: "plain s \<Longrightarrow> normalize s = s"
proof -
  assume p: "plain s"
  then have "py_lower s = s"
    by (induction s) (auto simp: plain_def py_lower_def lower_char_def)
  moreover from p have "\<forall>c\<in>set s. c < 192" by (simp add: plain_def list_all_iff)
  ultimately show ?thesis by (simp add: normalize_def remover_acentos_plain)
qed

section \<open>Stripped fragments\<close>

lemma rstrip_prefix: "\<exists>n. rstrip s = take n s"
proof -
  have "dropWhile is_space (rev s) = drop (length (takeWhile is_space (rev s))) (rev s)"
    by (rule dropWhile_eq_drop)
  then show ?thesis by (auto simp: rstrip_def rev_drop)
qed

lemma lstrip_hd: "lstrip s \<noteq> [] \<Longrightarrow> \<not> is_space (hd (lstrip s))"
  unfolding lstrip_def by (rule hd_dropWhile)

lemma strip_hd: "strip s \<noteq> [] \<Longrightarrow> \<not> is_space (hd (strip s))"
proof -
  assume ne: "strip s \<noteq> []"
  from rstrip_prefix [of "lstrip s"] obtain n where n: "strip s = take n (lstrip s)"
    by (auto simp: strip_def)
  with ne have "lstrip s \<noteq> []" "0 < n" by auto
  then have "hd (take n (lstrip s)) = hd (lstrip s)" by (cases "lstrip s"; cases n) auto
  with lstrip_hd [OF \<open>lstrip s \<noteq> []\<close>] n show ?thesis by simp
qed

lemma strip_last: "strip s \<noteq> [] \<Longrightarrow> \<not> is_space (last (strip s))"
proof -
  assume ne: "strip s \<noteq> []"
  then have d: "dropWhile is_space (rev (lstrip s)) \<noteq> []" by (simp add: strip_def rstrip_def)
  have "last (strip s) = hd (dropWhile is_space (rev (lstrip s)))"
    using d by (simp add: strip_def rstrip_def last_rev)
  with hd_dropWhile [OF d] show ?thesis by simp
qed

lemma strip_strip: "strip (strip s) = strip s"
proof (cases "strip s = []")
  case True
  have "strip [] = []" by (simp add: strip_def rstrip_def lstrip_def)
  with True show ?thesis by simp
next
  case False
  from strip_hd [OF False] False have l: "lstrip (strip s) = strip s"
    by (cases "strip s") (auto simp: lstrip_def)
  from strip_last [OF False] False have "dropWhile is_space (rev (strip s)) = rev (strip s)"
    by (cases "rev (strip s)") (auto simp: last_rev [symmetric] hd_rev)
  then have "rstrip (strip s) = strip s" by (simp add: rstrip_def)
  with l show ?thesis by (simp add: strip_def [of "strip s"])
qed

lemma palavras_spec:
  "palavras pedido = map strip (filter (\<lambda>f. strip f \<noteq> []) (split_spec (normalize pedido)))"
  by (simp add: palavras_def re_split_spec)

lemma palavras_stripped:
  assumes "p \<in> set (palavras pedido)"
  shows "p \<noteq> [] \<and> strip p = p \<and> \<not> is_space (last p)"
proof -
  from assms obtain f where "p = strip f" "strip f \<noteq> []" by (auto simp: palavras_def)
  then show ?thesis using strip_strip [of f] strip_last [of f] by simp
qed

section \<open>Every fragment is answered\<close>

lemma process_item_count:
  assumes "process_item produtos st palavra = Inr st'"
  shows "length (itens_pedidos st') + length (printed st') =
         length (itens_pedidos st) + length (printed st) + 1"
  using assms
  by (auto simp: process_item_def Let_def split: sum.splits prod.splits list.splits option.splits)

lemma process_items_count:
  "process_items produtos st ps = Inr st' \<Longrightarrow>
     length (itens_pedidos st') + length (printed st') =
     length (itens_pedidos st) + length (printed st) + length ps"
proof (induction ps arbitrary: st)
  case Nil
  then show ?case by simp
next
  case (Cons p ps)
  then obtain st1 where s1: "process_item produtos st p = Inr st1"
    and s2: "process_items produtos st1 ps = Inr st'"
    by (auto split: sum.splits)
  from process_item_count [OF s1] Cons.IH [OF s2] show ?case by simp
qed

lemma palavras_example_zero: "palavras (ascii ''0 paes'') = [ascii ''0 paes'']"
proof -
  have "plain (ascii ''0 paes'')" by (simp add: plain_def ascii_def)
  then have "normalize (ascii ''0 paes'') = ascii ''0 paes''" by (rule normalize_plain)
  then show ?thesis by (simp add: palavras_spec) (simp add: text_eval)
qed

lemma parse_item_example_zero: "parse_item (ascii ''0 paes'') = Inr (0, ascii ''paes'')"
  unfolding parse_item_def
  apply (simp add: text_eval re_match_def qtd_pattern_def)
  apply (simp add: py_int_def text_eval int_max_str_digits_def)
  done

lemma parse_item_example_trailing: "parse_item (ascii ''paes 2'') = Inr (1, ascii ''paes 2'')"
  unfolding parse_item_def by (simp add: text_eval re_match_def qtd_pattern_def)

text \<open>A phrase whose quantity is at least 1.\<close>

definition quantity_at_least_one :: "error + nat \<times> ustr \<Rightarrow> bool" where
  "quantity_at_least_one r \<longleftrightarrow> (case r of Inl e \<Rightarrow> False | Inr (qtd, nome) \<Rightarrow> 1 \<le> qtd)"

text \<open>
  C9, as amended: the quantity of a phrase is a non-negative integer: the number its
  leading digits denote, which may be 0, when whitespace follows them, and 1 otherwise.
\<close>

theorem quantity_of_phrase:
  assumes "p \<in> set (palavras pedido)" "parse_item p = Inr (qtd, nome)"
  shows "0 \<le> int qtd \<and>
    qtd = (if takeWhile is_digit p \<noteq> [] \<and>
              dropWhile is_space (dropWhile is_digit p) \<noteq> dropWhile is_digit p
           then digits_value (takeWhile is_digit p) else 1)"
proof -
  from palavras_stripped [OF assms(1)] have "parse_item p = parse_spec p"
    by (intro parse_item_spec) auto
  with assms(2) show ?thesis
    by (auto simp: parse_spec_def Let_def split: if_splits)
qed

theorem quantity_of_phrase_witness:
  "ascii ''0 paes'' \<in> set (palavras (ascii ''0 paes'')) \<and>
   parse_item (ascii ''0 paes'') = Inr (0, ascii ''paes'') \<and>
   (0::int) \<le> int 0 \<and> digits_value (takeWhile is_digit (ascii ''0 paes'')) = 0"
proof -
  have m: "ascii ''0 paes'' \<in> set (palavras (ascii ''0 paes''))"
    by (simp add: palavras_example_zero)
  from quantity_of_phrase [OF m parse_item_example_zero] m parse_item_example_zero
  show ?thesis by (simp add: text_eval split: if_splits)
qed

text \<open>C9 as stated fails: the order \<open>0 paes\<close> gives a phrase of quantity 0.\<close>

theorem quantity_zero_counterexample:
  "\<not> list_all quantity_at_least_one (map parse_item (palavras (ascii ''0 paes'')))"
  by (simp add: palavras_example_zero parse_item_example_zero quantity_at_least_one_def)

section \<open>Normalisation of Latin-1 text\<close>

lemma filter_place_Mn:
  "is_Mn c \<Longrightarrow> filter (\<lambda>c. \<not> is_Mn c) (place c out) = filter (\<lambda>c. \<not> is_Mn c) out"
  by (induction out) auto

lemma filter_place:
  assumes "ccc c \<noteq> 0 \<longrightarrow> is_Mn c"
  shows "filter (\<lambda>c. \<not> is_Mn c) (place c out) = filter (\<lambda>c. \<not> is_Mn c) (c # out)"
proof (cases "is_Mn c")
  case True
  then show ?thesis by (simp add: filter_place_Mn)
next
  case False
  with assms have "ccc c = 0" by auto
  then show ?thesis by (cases out) auto
qed

lemma filter_foldl_place:
  assumes "\<forall>c\<in>set s. ccc c \<noteq> 0 \<longrightarrow> is_Mn c"
  shows "filter (\<lambda>c. \<not> is_Mn c) (foldl (\<lambda>out c. place c out) acc s) =
         filter (\<lambda>c. \<not> is_Mn c) (rev s @ acc)"
  using assms
proof (induction s arbitrary: acc)
  case Nil
  then show ?case by simp
next
  case (Cons c s)
  then have "filter (\<lambda>c. \<not> is_Mn c) (foldl (\<lambda>out c. place c out) (place c acc) s) =
      filter (\<lambda>c. \<not> is_Mn c) (rev s) @ filter (\<lambda>c. \<not> is_Mn c) (place c acc)"
    by simp
  also have "filter (\<lambda>c. \<not> is_Mn c) (place c acc) = filter (\<lambda>c. \<not> is_Mn c) (c # acc)"
    using Cons.prems by (intro filter_place) simp
  finally show ?case by simp
qed

lemma remover_acentos_filter:
  assumes "\<forall>c\<in>set (concat (map decomp s)). ccc c \<noteq> 0 \<longrightarrow> is_Mn c"
  shows "remover_acentos s = filter (\<lambda>c. \<not> is_Mn c) (concat (map decomp s))"
  using filter_foldl_place [OF assms, of "[]"]
  by (simp add: remover_acentos_def nfd_def canonical_order_def rev_filter [symmetric])

text \<open>The normal form of one Latin-1 character: lower case, the accent removed.\<close>

definition norm_char :: "nat \<Rightarrow> ustr" where
  "norm_char c = filter (\<lambda>c. \<not> is_Mn c) (decomp (lower_char c))"

lemma decomp_table_entries:
  "\<forall>(k, d)\<in>set decomp_table. \<exists>b m. d = [b, m] \<and> b < 128 \<and> is_Mn m \<and> ccc b = 0 \<and>
      (224 \<le> k \<longrightarrow> 97 \<le> b)"
  by (simp add: decomp_table_def is_Mn_def ccc_def)

lemma decomp_cases:
  "decomp c = [c] \<or> (\<exists>b m. decomp c = [b, m] \<and> b < 128 \<and> is_Mn m \<and> ccc b = 0 \<and> (224 \<le> c \<longrightarrow> 97 \<le> b))"
proof (cases "map_of decomp_table c")
  case None
  then show ?thesis by (simp add: decomp_def)
next
  case (Some d)
  then have "(c, d) \<in> set decomp_table" by (rule map_of_SomeD)
  with decomp_table_entries Some show ?thesis by (auto simp: decomp_def)
qed

lemma ccc_Mn: "c \<noteq> 12334 \<Longrightarrow> c \<noteq> 119141 \<Longrightarrow> ccc c \<noteq> 0 \<longrightarrow> is_Mn c"
  by (auto simp: ccc_def is_Mn_def)

lemma lower_char_latin: "c < 256 \<Longrightarrow> lower_char c < 256 \<and> \<not> (192 \<le> lower_char c \<and> lower_char c < 223 \<and> lower_char c \<noteq> 215) \<and> \<not> (65 \<le> lower_char c \<and> lower_char c \<le> 90)"
  by (auto simp: lower_char_def)

lemma normalize_latin:
  assumes "list_all (\<lambda>c. c < 256) x"
  shows "normalize x = concat (map norm_char x)"
proof -
  have "\<forall>c\<in>set (concat (map decomp (py_lower x))). ccc c \<noteq> 0 \<longrightarrow> is_Mn c"
  proof
    fix c assume "c \<in> set (concat (map decomp (py_lower x)))"
    then obtain a where a: "a \<in> set x" "c \<in> set (decomp (lower_char a))"
      by (auto simp: py_lower_def)
    with assms have "lower_char a < 256" using lower_char_latin by (auto simp: list_all_iff)
    with a decomp_cases [of "lower_char a"] have "c < 256 \<or> is_Mn c" by auto
    then show "ccc c \<noteq> 0 \<longrightarrow> is_Mn c" using ccc_Mn [of c] by auto
  qed
  from remover_acentos_filter [OF this] show ?thesis
    by (simp add: normalize_def py_lower_def norm_char_def [abs_def] filter_concat comp_def map_concat)
qed

lemma Mn_not_latin: "c < 256 \<Longrightarrow> \<not> is_Mn c"
  by (simp add: is_Mn_def)

lemma norm_char_latin:
  assumes "c < 256"
  shows "\<exists>b. norm_char c = [b] \<and> b < 256 \<and> norm_char b = [b]"
proof -
  define l where "l = lower_char c"
  from lower_char_latin [OF assms] have l: "l < 256"
    "\<not> (192 \<le> l \<and> l < 223 \<and> l \<noteq> 215)" "\<not> (65 \<le> l \<and> l \<le> 90)"
    by (simp_all add: l_def)
  then have ll: "lower_char l = l" by (auto simp: lower_char_def)
  from decomp_cases [of l] show ?thesis
  proof
    assume d: "decomp l = [l]"
    with l ll Mn_not_latin [of l] have "norm_char c = [l]" "norm_char l = [l]"
      by (simp_all add: norm_char_def l_def [symmetric])
    with l show ?thesis by blast
  next
    assume "\<exists>b m. decomp l = [b, m] \<and> b < 128 \<and> is_Mn m \<and> ccc b = 0 \<and> (224 \<le> l \<longrightarrow> 97 \<le> b)"
    then obtain b m where d: "decomp l = [b, m]" "b < 128" "is_Mn m" "224 \<le> l \<longrightarrow> 97 \<le> b" by blast
    have "192 \<le> l"
    proof (rule ccontr)
      assume "\<not> 192 \<le> l"
      then have "decomp l = [l]" by (simp add: decomp_plain)
      with d show False by simp
    qed
    moreover have "l \<noteq> 215 \<and> l \<noteq> 223"
    proof (rule ccontr)
      assume "\<not> (l \<noteq> 215 \<and> l \<noteq> 223)"
      then have "decomp l = [l]" by (auto simp: decomp_def decomp_table_def)
      with d show False by simp
    qed
    ultimately have "224 \<le> l" using l by auto
    with d have b: "97 \<le> b" "b < 128" by auto
    then have "lower_char b = b" "decomp b = [b]" "\<not> is_Mn b"
      by (simp_all add: lower_char_def decomp_plain Mn_plain)
    then have "norm_char b = [b]" by (simp add: norm_char_def)
    moreover have "norm_char c = [b]"
      using d b Mn_plain [of b] by (simp add: norm_char_def l_def [symmetric])
    ultimately show ?thesis using b by auto
  qed
qed

lemma normalize_latin_idem:
  assumes "list_all (\<lambda>c. c < 256) x"
  shows "normalize (normalize x) = normalize x"
  using assms
proof (induction x)
  case Nil
  then show ?case by (simp add: normalize_latin)
next
  case (Cons c x)
  then have c: "c < 256" and x: "list_all (\<lambda>c. c < 256) x" by simp_all
  from norm_char_latin [OF c] obtain b where b: "norm_char c = [b]" "b < 256" "norm_char b = [b]"
    by blast
  have nx: "normalize x = concat (map norm_char x)" by (rule normalize_latin [OF x])
  have lat: "list_all (\<lambda>c. c < 256) (normalize x)"
  proof -
    have "\<forall>a\<in>set x. \<forall>d\<in>set (norm_char a). d < 256"
    proof
      fix a assume "a \<in> set x"
      with x have "a < 256" by (simp add: list_all_iff)
      from norm_char_latin [OF this] show "\<forall>d\<in>set (norm_char a). d < 256" by auto
    qed
    then show ?thesis by (auto simp: nx list_all_iff)
  qed
  have "normalize (c # x) = b # normalize x"
    using normalize_latin [OF Cons.prems] nx b by simp
  moreover have "normalize (b # normalize x) = b # normalize (normalize x)"
    using normalize_latin [of "b # normalize x"] normalize_latin [OF lat] lat b by simp
  ultimately show ?case using Cons.IH [OF x] by simp
qed

lemmas ucd_eval = normalize_def py_lower_def lower_char_def remover_acentos_def nfd_def
  decomp_def decomp_table_def canonical_order_def ccc_def is_Mn_def

lemma normalize_marks: "normalize [12334, 3263, 119141] = [12334, 119141]"
  by (simp add: ucd_eval)

lemma normalize_marks_again: "normalize [12334, 119141] = [119141, 12334]"
  by (simp add: ucd_eval)

lemma normalize_PAO: "normalize (ascii ''P'' @ [195] @ ascii ''O'') = ascii ''pao''"
  by (simp add: ucd_eval ascii_def)

lemma normalize_pao: "normalize (ascii ''pao'') = ascii ''pao''"
  by (rule normalize_plain) (simp add: plain_def ascii_def)

text \<open>
  C8, as amended: normalisation is a total function; on every string of Latin-1
  characters (code points below U+0100) it is idempotent; it is insensitive to case and
  accents, so that \<open>PAO\<close> written with A tilde (U+00C3) and \<open>pao\<close> have the same
  normal form; and a Latin-1 character
  with no lower-case mapping and no decomposition passes through unchanged.
\<close>

theorem normalize_idempotent_latin1:
  "(list_all (\<lambda>c. c < 256) x \<longrightarrow> normalize (normalize x) = normalize x) \<and>
   normalize (ascii ''P'' @ [195] @ ascii ''O'') = normalize (ascii ''pao'') \<and>
   (c < 256 \<and> lower_char c = c \<and> decomp c = [c] \<longrightarrow> normalize [c] = [c])"
proof -
  have "normalize [c] = [c]" if "c < 256" "lower_char c = c" "decomp c = [c]"
    using that normalize_latin [of "[c]"] Mn_not_latin [of c] by (simp add: norm_char_def)
  then show ?thesis
    using normalize_latin_idem [of x] normalize_PAO normalize_pao by simp
qed

theorem normalize_idempotent_latin1_witness:
  "list_all (\<lambda>c. c < 256) (ascii ''P'' @ [195] @ ascii ''O'') \<and>
   normalize (normalize (ascii ''P'' @ [195] @ ascii ''O'')) = normalize (ascii ''P'' @ [195] @ ascii ''O'') \<and>
   (36::nat) < 256 \<and> lower_char 36 = 36 \<and> decomp 36 = [36] \<and> normalize [36] = [36]"
proof -
  have a: "list_all (\<lambda>c. c < 256) (ascii ''P'' @ [195] @ ascii ''O'')" by (simp add: ascii_def)
  have b: "(36::nat) < 256 \<and> lower_char 36 = 36 \<and> decomp 36 = [36]"
    by (simp add: lower_char_def decomp_plain)
  from normalize_idempotent_latin1 [of "ascii ''P'' @ [195] @ ascii ''O''" 36] a b
  show ?thesis by blast
qed

text \<open>
  C8 as stated fails: the string U+302E, U+0CBF, U+1D165 is normalised to U+302E,
  U+1D165, whose own normal form has the two marks in the other order.
\<close>

theorem normalize_not_idempotent_counterexample:
  "normalize (normalize [12334, 3263, 119141]) \<noteq> normalize [12334, 3263, 119141]"
  by (simp add: normalize_marks normalize_marks_again)

section \<open>Rounding is monotone\<close>

lemma fge_PInf [simp]: "x \<noteq> NaN \<Longrightarrow> fge PInf x"
  by (cases x) auto

lemma fge_refl: "x \<noteq> NaN \<Longrightarrow> fge x x"
  by (cases x) auto

lemma fge_trans: "fge x y \<Longrightarrow> fge y z \<Longrightarrow> fge x z"
  by (cases x; cases y; cases z) auto

lemma fge_total: "x \<noteq> NaN \<Longrightarrow> y \<noteq> NaN \<Longrightarrow> fgt x y \<or> fge y x"
  by (cases x; cases y) auto

lemma fgt_fge: "fgt x y \<Longrightarrow> fge x y"
  by (cases x; cases y) auto


lemma fge_not_NaN: "fge x y \<Longrightarrow> x \<noteq> NaN \<and> y \<noteq> NaN"
  by (cases x; cases y) auto

lemma to_double_not_NaN [simp]: "to_double q \<noteq> NaN"
  using to_double_cases [of q] by auto

text \<open>The spacing of the doubles around a positive rational.\<close>

definition ulp_exp :: "rat \<Rightarrow> int" where
  "ulp_exp q = max (binade q - 52) (- 1074)"

definition rounded :: "rat \<Rightarrow> rat" where
  "rounded q = of_int (round_half_even (q / 2 powi ulp_exp q)) * 2 powi ulp_exp q"

lemma to_double_rounded:
  "0 < q \<Longrightarrow> to_double q = (if 2 ^ 1024 \<le> rounded q then PInf else Fin (rounded q))"
  by (simp add: to_double_def rounded_def ulp_exp_def Let_def)

lemma rounded_same_grid:
  assumes "ulp_exp q = ulp_exp r" "q \<le> r"
  shows "rounded q \<le> rounded r"
proof -
  have "q / 2 powi ulp_exp r \<le> r / 2 powi ulp_exp r"
    using assms(2) by (simp add: divide_right_mono)
  then have "round_half_even (q / 2 powi ulp_exp r) \<le> round_half_even (r / 2 powi ulp_exp r)"
    by (rule rhe_mono)
  then have "(of_int (round_half_even (q / 2 powi ulp_exp r)) :: rat)
      \<le> of_int (round_half_even (r / 2 powi ulp_exp r))" by simp
  then show ?thesis
    unfolding rounded_def assms(1) by (intro mult_right_mono) simp_all
qed

lemma grid_point_le:
  assumes "q \<le> of_int n * 2 powi e"
  shows "of_int (round_half_even (q / 2 powi e)) * 2 powi e \<le> of_int n * (2::rat) powi e"
proof -
  have "q / 2 powi e \<le> of_int n" using assms by (simp add: divide_le_eq)
  then have "round_half_even (q / 2 powi e) \<le> n" by (rule rhe_le_int)
  then have "(of_int (round_half_even (q / 2 powi e)) :: rat) \<le> of_int n" by simp
  then show ?thesis by (intro mult_right_mono) simp_all
qed

lemma grid_point_ge:
  assumes "of_int n * 2 powi e \<le> q"
  shows "of_int n * (2::rat) powi e \<le> of_int (round_half_even (q / 2 powi e)) * 2 powi e"
proof -
  have "of_int n \<le> q / 2 powi e" using assms by (simp add: le_divide_eq)
  then have "n \<le> round_half_even (q / 2 powi e)" by (rule rhe_ge_int)
  then have "(of_int n :: rat) \<le> of_int (round_half_even (q / 2 powi e))" by simp
  then show ?thesis by (intro mult_right_mono) simp_all
qed

lemma powi2_split: "d \<le> e \<Longrightarrow> (2::rat) powi e = of_int (2 ^ nat (e - d)) * 2 powi d"
proof -
  assume "d \<le> e"
  then have "(2::rat) powi (e - d) = 2 ^ nat (e - d)" by (simp add: power_int_def)
  moreover have "(2::rat) powi e = 2 powi (e - d) * 2 powi d" by (simp flip: power_int_add)
  ultimately show ?thesis by simp
qed

lemma rounded_mono:
  assumes "0 < q" "q \<le> r"
  shows "rounded q \<le> rounded r"
proof (cases "ulp_exp q = ulp_exp r")
  case True
  then show ?thesis using assms(2) by (rule rounded_same_grid)
next
  case False
  from assms have r: "0 < r" by simp
  from binade_mono [OF assms] have bm: "binade q \<le> binade r" .
  then have "ulp_exp q \<le> ulp_exp r" by (simp add: ulp_exp_def)
  with False have lt: "ulp_exp q < ulp_exp r" by simp
  then have ur: "ulp_exp r = binade r - 52" and bq: "binade q < binade r"
    by (auto simp: ulp_exp_def split: if_splits)
  define g :: rat where "g = 2 powi binade r"
  have qg: "q \<le> g"
  proof -
    from binade_bounds [OF assms(1)] have "q < 2 powi (binade q + 1)" by simp
    also have "\<dots> \<le> 2 powi binade r" using bq by (intro power_int_increasing) auto
    finally show ?thesis by (simp add: g_def)
  qed
  have gr: "g \<le> r" using binade_bounds [OF r] by (simp add: g_def)
  have g1: "g = of_int (2 ^ nat (binade r - ulp_exp q)) * 2 powi ulp_exp q"
    unfolding g_def using lt ur by (intro powi2_split) simp
  have g2: "g = of_int (2 ^ nat (binade r - ulp_exp r)) * 2 powi ulp_exp r"
    unfolding g_def using ur by (intro powi2_split) simp
  have "rounded q \<le> g"
    unfolding rounded_def using qg grid_point_le [of q "2 ^ nat (binade r - ulp_exp q)" "ulp_exp q"]
    by (simp only: g1 [symmetric])
  moreover have "g \<le> rounded r"
    unfolding rounded_def using gr grid_point_ge [of "2 ^ nat (binade r - ulp_exp r)" "ulp_exp r" r]
    by (simp only: g2 [symmetric])
  ultimately show ?thesis by simp
qed

lemma to_double_mono:
  assumes "q \<le> r"
  shows "fge (to_double r) (to_double q)"
proof (cases "0 < q")
  case False
  then have "to_double q = Fin 0" by (simp add: to_double_def)
  then show ?thesis using to_double_nonneg [of r] by simp
next
  case True
  with assms have r: "0 < r" by simp
  from rounded_mono [OF True assms] show ?thesis
    by (auto simp: to_double_rounded True r)
qed

section \<open>The quick ratios are upper bounds\<close>

lemma cutoff_value: "cutoff = Fin (5404319552844595 / 9007199254740992)"
  unfolding cutoff_def
  by (subst to_double_eval [of "- 1"]) (simp_all add: Let_def power_int_minus)

lemma float_of_len_cases: "float_of_len n = PInf \<or> (\<exists>v\<ge>0. float_of_len n = Fin v)"
  using to_double_cases [of "of_nat n"] by (simp add: float_of_len_def)

lemma float_of_len_mono: "m \<le> n \<Longrightarrow> fge (float_of_len n) (float_of_len m)"
  unfolding float_of_len_def by (rule to_double_mono) simp

lemma twice_mono:
  assumes "fge y x"
  shows "fge (fmul (Fin 2) y) (fmul (Fin 2) x)"
proof (cases x)
  case (Fin a)
  show ?thesis
  proof (cases y)
    case (Fin b)
    with \<open>x = Fin a\<close> assms show ?thesis by (simp add: to_double_mono)
  next
    case PInf
    with \<open>x = Fin a\<close> show ?thesis by simp
  next
    case NaN
    with assms show ?thesis by (cases x) auto
  qed
next
  case PInf
  with assms show ?thesis by (cases y) auto
next
  case NaN
  with assms show ?thesis by (cases y) auto
qed

lemma calculate_ratio_mono:
  assumes "m \<le> m'" "fge (calculate_ratio m len) cutoff"
  shows "fge (calculate_ratio m' len) cutoff"
proof (cases "len = 0")
  case True
  with assms show ?thesis by (simp add: calculate_ratio_def)
next
  case False
  define x where "x = fmul (Fin 2) (float_of_len m)"
  define y where "y = fmul (Fin 2) (float_of_len m')"
  have yx: "fge y x"
    unfolding x_def y_def using assms(1) by (intro twice_mono float_of_len_mono)
  from assms(2) False have a: "fge (fdiv x (float_of_len len)) cutoff"
    by (simp add: calculate_ratio_def x_def)
  have "fge (fdiv y (float_of_len len)) cutoff"
  proof (cases "float_of_len len")
    case (Fin d)
    from a Fin obtain xa where x: "x = Fin xa \<or> x = PInf" by (cases x) auto
    from yx have "y \<noteq> NaN" using fge_not_NaN by blast
    show ?thesis
    proof (cases y)
      case PInf
      then show ?thesis using Fin by (simp add: cutoff_value)
    next
      case NaN
      with \<open>y \<noteq> NaN\<close> show ?thesis by simp
    next
      case yb: (Fin b)
      with yx obtain xa where xa: "x = Fin xa" "xa \<le> b" by (cases x) auto
      from a xa Fin have "fge (to_double (xa / d)) cutoff" by simp
      moreover have "0 \<le> d"
        using float_of_len_cases [of len] Fin by auto
      then have "xa / d \<le> b / d" using xa(2) by (simp add: divide_right_mono)
      then have "fge (to_double (b / d)) (to_double (xa / d))" by (rule to_double_mono)
      ultimately have "fge (to_double (b / d)) cutoff" using fge_trans by blast
      with yb Fin show ?thesis by simp
    qed
  next
    case PInf
    with a show ?thesis by (cases x) (auto simp: cutoff_value)
  next
    case NaN
    then show ?thesis using float_of_len_cases [of len] by auto
  qed
  with False show ?thesis by (simp add: calculate_ratio_def y_def)
qed

text \<open>The part of a sequence from \<open>lo\<close> up to \<open>hi\<close>, as Python's \<open>a[lo:hi]\<close>.\<close>

definition slice :: "ustr \<Rightarrow> nat \<Rightarrow> nat \<Rightarrow> ustr" where
  "slice a lo hi = take (hi - lo) (drop lo a)"

lemma slice_split:
  assumes "lo \<le> mid" "mid \<le> hi"
  shows "slice a lo hi = slice a lo mid @ slice a mid hi"
proof -
  have "hi - lo = (mid - lo) + (hi - mid)" using assms by simp
  then have "take (hi - lo) (drop lo a) =
      take (mid - lo) (drop lo a) @ take (hi - mid) (drop (mid - lo) (drop lo a))"
    by (simp only: take_add)
  then show ?thesis using assms by (simp add: slice_def)
qed

lemma seg_eq_slice:
  assumes "seg_eq a b i j k" "i + k \<le> length a" "j + k \<le> length b"
  shows "slice a i (i + k) = slice b j (j + k)"
proof (rule nth_equalityI)
  show "length (slice a i (i + k)) = length (slice b j (j + k))"
    using assms by (simp add: slice_def)
next
  fix t assume "t < length (slice a i (i + k))"
  then have "t < k" by (simp add: slice_def)
  with assms show "slice a i (i + k) ! t = slice b j (j + k) ! t"
    by (simp add: slice_def seg_eq_def)
qed

lemma length_slice: "hi \<le> length a \<Longrightarrow> lo \<le> hi \<Longrightarrow> length (slice a lo hi) = hi - lo"
  by (simp add: slice_def)

lemma inter_add_mono: "(X \<inter># Y) + (Z \<inter># W) \<subseteq># (X + Z) \<inter># (Y + W)"
  by (auto simp: subseteq_mset_def min_def)

definition win_cap :: "ustr \<Rightarrow> ustr \<Rightarrow> window \<Rightarrow> nat" where
  "win_cap a b w =
     (case w of (alo, ahi, blo, bhi) \<Rightarrow> size (mset (slice a alo ahi) \<inter># mset (slice b blo bhi)))"

definition win_valid :: "ustr \<Rightarrow> ustr \<Rightarrow> window \<Rightarrow> bool" where
  "win_valid a b w \<longleftrightarrow>
     (case w of (alo, ahi, blo, bhi) \<Rightarrow> alo \<le> ahi \<and> ahi \<le> length a \<and> blo \<le> bhi \<and> bhi \<le> length b)"

lemma block_cap:
  assumes v: "win_valid a b (alo, ahi, blo, bhi)"
    and blk: "block_ok a b alo ahi blo bhi (i, j, k)"
  shows "win_cap a b (alo, i, blo, j) + k + win_cap a b (i + k, ahi, j + k, bhi)
           \<le> win_cap a b (alo, ahi, blo, bhi)"
proof -
  from v have va: "alo \<le> ahi" "ahi \<le> length a" "blo \<le> bhi" "bhi \<le> length b"
    by (simp_all add: win_valid_def)
  from blk have b: "alo \<le> i" "i + k \<le> ahi" "blo \<le> j" "j + k \<le> bhi" "seg_eq a b i j k"
    by (simp_all add: block_ok_def)
  define A1 where "A1 = mset (slice a alo i)"
  define A2 where "A2 = mset (slice a (i + k) ahi)"
  define B1 where "B1 = mset (slice b blo j)"
  define B2 where "B2 = mset (slice b (j + k) bhi)"
  define M where "M = mset (slice a i (i + k))"
  have mb: "M = mset (slice b j (j + k))"
    unfolding M_def using seg_eq_slice [OF b(5)] b va by simp
  have sa: "mset (slice a alo ahi) = A1 + M + A2"
    using slice_split [of alo i ahi a] slice_split [of i "i + k" ahi a] b
    by (simp add: A1_def A2_def M_def)
  have sb: "mset (slice b blo bhi) = B1 + M + B2"
    using slice_split [of blo j bhi b] slice_split [of j "j + k" bhi b] b
    by (simp add: B1_def B2_def mb)
  have "(A1 \<inter># B1) + (M \<inter># M) + (A2 \<inter># B2) \<subseteq># (A1 + M + A2) \<inter># (B1 + M + B2)"
    using inter_add_mono [of A1 B1 M M] inter_add_mono [of "A1 + M" "B1 + M" A2 B2]
    by (meson subset_mset.add_right_mono subset_mset.order_trans)
  then have "size ((A1 \<inter># B1) + (M \<inter># M) + (A2 \<inter># B2)) \<le> size ((A1 + M + A2) \<inter># (B1 + M + B2))"
    by (rule size_mset_mono)
  moreover have "size M = k" using b va by (simp add: M_def length_slice)
  ultimately show ?thesis
    by (simp add: win_cap_def sa sb A1_def [symmetric] A2_def [symmetric] B1_def [symmetric] B2_def [symmetric])
qed

definition block_sizes :: "block list \<Rightarrow> nat" where
  "block_sizes bs = sum_list (map (\<lambda>(i, j, k). k) bs)"

lemma push_windows_cap:
  assumes v: "win_valid a b (alo, ahi, blo, bhi)"
    and blk: "block_ok a b alo ahi blo bhi (i, j, k)"
  shows "sum_list (map (win_cap a b) (push_windows (alo, ahi, blo, bhi) (i, j, k) queue)) + k
           \<le> sum_list (map (win_cap a b) ((alo, ahi, blo, bhi) # queue))"
    and "list_all (win_valid a b) queue \<Longrightarrow>
           list_all (win_valid a b) (push_windows (alo, ahi, blo, bhi) (i, j, k) queue)"
proof -
  from block_cap [OF v blk] show "sum_list (map (win_cap a b) (push_windows (alo, ahi, blo, bhi) (i, j, k) queue)) + k
           \<le> sum_list (map (win_cap a b) ((alo, ahi, blo, bhi) # queue))"
    by (auto simp: push_windows_def)
  from v blk show "list_all (win_valid a b) queue \<Longrightarrow>
           list_all (win_valid a b) (push_windows (alo, ahi, blo, bhi) (i, j, k) queue)"
    by (auto simp: push_windows_def win_valid_def block_ok_def)
qed

lemma blocks_loop_bound:
  assumes "list_all (win_valid a b) queue"
  shows "block_sizes (blocks_loop a b queue acc)
           \<le> block_sizes acc + sum_list (map (win_cap a b) queue)"
  using assms
proof (induction a b queue acc rule: blocks_loop.induct)
  case (1 a b matching_blocks)
  then show ?case by simp
next
  case (2 a b alo ahi blo bhi queue matching_blocks)
  obtain i j k where f: "find_longest_match a b alo ahi blo bhi = (i, j, k)"
    by (cases "find_longest_match a b alo ahi blo bhi") auto
  from "2.prems" have v: "win_valid a b (alo, ahi, blo, bhi)" and q: "list_all (win_valid a b) queue"
    by simp_all
  show ?case
  proof (cases "k = 0")
    case True
    with "2.IH"(2) [OF f [symmetric] refl _ q] f show ?thesis by simp
  next
    case False
    from find_longest_match_block [OF f False] have blk: "block_ok a b alo ahi blo bhi (i, j, k)" .
    from push_windows_cap [OF v blk, of queue] q
    have c: "sum_list (map (win_cap a b) (push_windows (alo, ahi, blo, bhi) (i, j, k) queue)) + k
           \<le> sum_list (map (win_cap a b) ((alo, ahi, blo, bhi) # queue))"
      and v': "list_all (win_valid a b) (push_windows (alo, ahi, blo, bhi) (i, j, k) queue)"
      by simp_all
    from "2.IH"(1) [OF f [symmetric] refl False v'] f False c show ?thesis
      by (simp add: block_sizes_def)
  qed
qed

lemma matches_le_inter: "matches a b \<le> size (mset a \<inter># mset b)"
proof -
  have "list_all (win_valid a b) [(0, length a, 0, length b)]" by (simp add: win_valid_def)
  from blocks_loop_bound [OF this, of "[]"] show ?thesis
    by (simp add: matches_def block_sizes_def win_cap_def slice_def)
qed

text \<open>
  In \<open>quick_ratio\<close>, \<open>avail\<close> and the counts of \<open>b\<close> stand for the multiset of the
  elements of \<open>b\<close> not yet paired; a number at or below zero means none is left.
\<close>

definition avail_of :: "ustr \<Rightarrow> (nat \<rightharpoonup> int) \<Rightarrow> nat \<Rightarrow> int" where
  "avail_of b avail elt = (case avail elt of Some n \<Rightarrow> n | None \<Rightarrow> int (count_list b elt))"

lemma inter_add_mset_pos:
  "0 < count M x \<Longrightarrow> size (add_mset x A \<inter># M) = Suc (size (A \<inter># (M - {#x#})))"
proof -
  assume "0 < count M x"
  then have "x \<in># M" by (simp add: count_greater_zero_iff)
  then have "M = add_mset x (M - {#x#})" by simp
  then have "add_mset x A \<inter># M = add_mset x A \<inter># add_mset x (M - {#x#})" by simp
  also have "\<dots> = add_mset x (A \<inter># (M - {#x#}))" by simp
  finally show ?thesis by simp
qed

lemma inter_add_mset_zero:
  "count M x = 0 \<Longrightarrow> add_mset x A \<inter># M = A \<inter># M"
  by (simp add: count_eq_zero_iff add_mset_inter_add_mset inter_add_left1)

lemma quick_loop_inter:
  assumes "\<forall>x. count M x = nat (avail_of b avail x)"
  shows "quick_loop b avail m as = m + size (mset as \<inter># M)"
  using assms
proof (induction as arbitrary: avail m M)
  case Nil
  then show ?case by simp
next
  case (Cons elt as)
  define numb where "numb = avail_of b avail elt"
  have rep: "\<forall>x. count (M - {#elt#}) x = nat (avail_of b (avail(elt \<mapsto> numb - 1)) x)"
    using Cons.prems by (auto simp: avail_of_def numb_def)
  have step: "quick_loop b avail m (elt # as) =
      quick_loop b (avail(elt \<mapsto> numb - 1)) (if 0 < numb then m + 1 else m) as"
    unfolding numb_def avail_of_def by (simp only: quick_loop.simps Let_def)
  show ?case
  proof (cases "0 < numb")
    case True
    with Cons.prems have "0 < count M elt" by (simp add: numb_def)
    from step True have "quick_loop b avail m (elt # as) =
        quick_loop b (avail(elt \<mapsto> numb - 1)) (m + 1) as" by (simp only: if_True)
    also have "\<dots> = (m + 1) + size (mset as \<inter># (M - {#elt#}))" by (rule Cons.IH [OF rep])
    also have "\<dots> = m + size (mset (elt # as) \<inter># M)"
      using inter_add_mset_pos [OF \<open>0 < count M elt\<close>, of "mset as"] by simp
    finally show ?thesis .
  next
    case False
    with Cons.prems have z: "count M elt = 0" by (simp add: numb_def)
    then have "M - {#elt#} = M" by (simp add: count_eq_zero_iff)
    then have rep': "\<forall>x. count M x = nat (avail_of b (avail(elt \<mapsto> numb - 1)) x)"
      using rep by simp
    from step False have "quick_loop b avail m (elt # as) =
        quick_loop b (avail(elt \<mapsto> numb - 1)) m as" by (simp only: if_False)
    also have "\<dots> = m + size (mset as \<inter># M)" by (rule Cons.IH [OF rep'])
    also have "\<dots> = m + size (mset (elt # as) \<inter># M)"
      using inter_add_mset_zero [OF z, of "mset as"] by simp
    finally show ?thesis .
  qed
qed

lemma quick_loop_eq: "quick_loop b Map.empty 0 a = size (mset a \<inter># mset b)"
proof -
  have "\<forall>x. count (mset b) x = nat (avail_of b Map.empty x)"
    by (simp add: avail_of_def count_mset)
  from quick_loop_inter [OF this, of 0 a] show ?thesis by simp
qed

lemma inter_le_min: "size (mset a \<inter># mset b) \<le> min (length a) (length b)"
proof -
  have "size (mset a \<inter># mset b) \<le> size (mset a)" by (intro size_mset_mono) simp
  moreover have "size (mset a \<inter># mset b) \<le> size (mset b)" by (intro size_mset_mono) simp
  ultimately show ?thesis by simp
qed

lemma ratio_passes_quick:
  assumes "fge (ratio a b) cutoff"
  shows "fge (quick_ratio a b) cutoff" "fge (real_quick_ratio a b) cutoff"
proof -
  have m: "matches a b \<le> quick_loop b Map.empty 0 a"
    using matches_le_inter [of a b] by (simp add: quick_loop_eq)
  from calculate_ratio_mono [OF m] assms show q: "fge (quick_ratio a b) cutoff"
    by (simp add: ratio_def quick_ratio_def)
  have "quick_loop b Map.empty 0 a \<le> min (length a) (length b)"
    using inter_le_min [of a b] by (simp add: quick_loop_eq)
  from calculate_ratio_mono [OF this] q show "fge (real_quick_ratio a b) cutoff"
    by (simp add: quick_ratio_def real_quick_ratio_def)
qed

lemma scored_filter:
  "scored word possibilities =
     map (\<lambda>x. (ratio x word, x)) (filter (\<lambda>x. fge (ratio x word) cutoff) possibilities)"
proof (induction possibilities)
  case Nil
  then show ?case by (simp add: scored_def)
next
  case (Cons x xs)
  then show ?case using ratio_passes_quick [of x word] by (auto simp: scored_def)
qed

text \<open>\<open>max\<close> returns an element of the list whose score no score of the list exceeds.\<close>

lemma foldl_max_score:
  assumes "\<forall>u\<in>set (t # ts). fst u \<noteq> NaN"
  shows "foldl (\<lambda>m u. if tuple_gt u m then u else m) t ts \<in> set (t # ts) \<and>
         (\<forall>u\<in>set (t # ts). fge (fst (foldl (\<lambda>m u. if tuple_gt u m then u else m) t ts)) (fst u))"
  using assms
proof (induction ts arbitrary: t rule: rev_induct)
  case Nil
  then show ?case by (simp add: fge_refl)
next
  case (snoc u ts)
  define r where "r = foldl (\<lambda>m u. if tuple_gt u m then u else m) t ts"
  from snoc.prems have nn: "\<forall>u\<in>set (t # ts). fst u \<noteq> NaN" and un: "fst u \<noteq> NaN" by simp_all
  from snoc.IH [OF nn] have r: "r \<in> set (t # ts)" "\<forall>v\<in>set (t # ts). fge (fst r) (fst v)"
    by (simp_all add: r_def)
  from r(1) nn have rn: "fst r \<noteq> NaN" by blast
  show ?case
  proof (cases "tuple_gt u r")
    case True
    then have "fge (fst u) (fst r)"
      using fgt_fge [of "fst u" "fst r"] fge_refl [OF un]
      by (auto simp: tuple_gt_def split: if_splits)
    with r(2) have "\<forall>v\<in>set (t # ts). fge (fst u) (fst v)" using fge_trans by blast
    with True un show ?thesis by (simp add: r_def [symmetric] fge_refl)
  next
    case False
    then have "fge (fst r) (fst u)"
      using fge_total [OF un rn] fge_refl [OF rn]
      by (auto simp: tuple_gt_def split: if_splits)
    with False r show ?thesis by (auto simp: r_def [symmetric])
  qed
qed

lemma get_close_matches_cases:
  "get_close_matches word names = [] \<and> (\<forall>x\<in>set names. \<not> fge (ratio x word) cutoff) \<or>
   (\<exists>x. get_close_matches word names = [x] \<and> x \<in> set names \<and> fge (ratio x word) cutoff \<and>
        (\<forall>y\<in>set names. fge (ratio y word) cutoff \<longrightarrow> fge (ratio x word) (ratio y word)))"
proof (cases "filter (\<lambda>x. fge (ratio x word) cutoff) names")
  case Nil
  then have "\<forall>x\<in>set names. \<not> fge (ratio x word) cutoff" by (simp add: filter_empty_conv)
  with Nil show ?thesis by (simp add: get_close_matches_def scored_filter nlargest1_def)
next
  case (Cons n ns)
  define cs where "cs = map (\<lambda>x. (ratio x word, x)) (n # ns)"
  define t where "t = (ratio n word, n)"
  define ts where "ts = map (\<lambda>x. (ratio x word, x)) ns"
  define r where "r = foldl (\<lambda>m u. if tuple_gt u m then u else m) t ts"
  have mem: "\<forall>u\<in>set (t # ts). \<exists>x\<in>set names. u = (ratio x word, x) \<and> fge (ratio x word) cutoff"
  proof
    fix u assume "u \<in> set (t # ts)"
    then obtain x where "x \<in> set (n # ns)" "u = (ratio x word, x)" by (auto simp: t_def ts_def)
    moreover from this Cons have "x \<in> set (filter (\<lambda>x. fge (ratio x word) cutoff) names)" by simp
    ultimately show "\<exists>x\<in>set names. u = (ratio x word, x) \<and> fge (ratio x word) cutoff" by auto
  qed
  then have "\<forall>u\<in>set (t # ts). fst u \<noteq> NaN" using fge_not_NaN by fastforce
  from foldl_max_score [OF this] have r: "r \<in> set (t # ts)" "\<forall>u\<in>set (t # ts). fge (fst r) (fst u)"
    by (simp_all add: r_def)
  from r(1) mem obtain x where x: "x \<in> set names" "r = (ratio x word, x)" "fge (ratio x word) cutoff"
    by blast
  have best: "\<forall>y\<in>set names. fge (ratio y word) cutoff \<longrightarrow> fge (ratio x word) (ratio y word)"
  proof (intro ballI impI)
    fix y assume "y \<in> set names" "fge (ratio y word) cutoff"
    then have "y \<in> set (filter (\<lambda>x. fge (ratio x word) cutoff) names)" by simp
    then have "y \<in> set (n # ns)" by (simp only: Cons)
    then have "(ratio y word, y) \<in> set (t # ts)" by (auto simp: t_def ts_def)
    with r(2) x(2) show "fge (ratio x word) (ratio y word)" by fastforce
  qed
  have "get_close_matches word names = [snd r]"
    by (simp add: get_close_matches_def scored_filter Cons nlargest1_def r_def t_def ts_def)
  with x best show ?thesis by auto
qed

lemmas difflib_eval = find_longest_match_def b2j_get_def popular_def extend_left.simps
  extend_right.simps push_windows_def matches_def Let_def






section \<open>What the loop adds for each fragment\<close>

text \<open>
  The outcome of one fragment when no exception is raised: \<open>Inl\<close> the name that was not
  found, or \<open>Inr\<close> the quantity, the catalog entry and the subtotal of a match.
\<close>

definition item_of ::
  "Produto list \<Rightarrow> ustr \<Rightarrow> (ustr + nat \<times> Produto \<times> pyfloat) option" where
  "item_of produtos palavra =
     (case parse_item palavra of
        Inl e \<Rightarrow> None
      | Inr (qtd, prod_nome_raw) \<Rightarrow>
          (case get_close_matches prod_nome_raw (nomes_prod_norm produtos) of
             [] \<Rightarrow> Some (Inl prod_nome_raw)
           | nome_norm_match # _ \<Rightarrow>
               (case (mapa_produtos produtos nome_norm_match, float_of_int qtd) of
                  (Some produto, Inr q) \<Rightarrow> Some (Inr (qtd, produto, fmul (snd produto) q))
                | _ \<Rightarrow> None)))"

definition unmatched_names :: "Produto list \<Rightarrow> ustr list \<Rightarrow> ustr list" where
  "unmatched_names produtos ps =
     concat (map (\<lambda>p. case item_of produtos p of Some (Inl nome) \<Rightarrow> [nome] | _ \<Rightarrow> []) ps)"

definition matched_items :: "Produto list \<Rightarrow> ustr list \<Rightarrow> (nat \<times> Produto \<times> pyfloat) list" where
  "matched_items produtos ps =
     concat (map (\<lambda>p. case item_of produtos p of Some (Inr m) \<Rightarrow> [m] | _ \<Rightarrow> []) ps)"

definition line_of :: "nat \<times> Produto \<times> pyfloat \<Rightarrow> ustr" where
  "line_of m = (case m of (qtd, produto, subtotal) \<Rightarrow> item_line qtd (fst produto) subtotal)"

definition subtotal_of :: "nat \<times> Produto \<times> pyfloat \<Rightarrow> pyfloat" where
  "subtotal_of m = (case m of (qtd, produto, subtotal) \<Rightarrow> subtotal)"

lemma process_item_unmatched:
  assumes "item_of produtos p = Some (Inl nome)"
  shows "process_item produtos st p = Inr (st\<lparr>printed := printed st @ [aviso_line nome]\<rparr>)"
  using assms
  by (auto simp: item_of_def process_item_def split: sum.splits prod.splits list.splits option.splits)

lemma process_item_matched:
  assumes "item_of produtos p = Some (Inr m)"
  shows "process_item produtos st p =
     Inr (st\<lparr>total := fadd (total st) (subtotal_of m),
            itens_pedidos := itens_pedidos st @ [line_of m]\<rparr>)"
  using assms
  by (auto simp: item_of_def process_item_def line_of_def subtotal_of_def Let_def
      split: sum.splits prod.splits list.splits option.splits)

lemma process_item_error:
  assumes "item_of produtos p = None"
  shows "\<exists>e. process_item produtos st p = Inl e"
  using assms
  by (auto simp: item_of_def process_item_def Let_def
      split: sum.splits prod.splits list.splits option.splits)

lemma process_items_result:
  assumes "process_items produtos st ps = Inr st'"
  shows "total st' = foldl fadd (total st) (map subtotal_of (matched_items produtos ps)) \<and>
         itens_pedidos st' = itens_pedidos st @ map line_of (matched_items produtos ps) \<and>
         printed st' = printed st @ map aviso_line (unmatched_names produtos ps)"
  using assms
proof (induction ps arbitrary: st)
  case Nil
  then show ?case by (simp add: matched_items_def unmatched_names_def)
next
  case (Cons p ps)
  then obtain st1 where s1: "process_item produtos st p = Inr st1"
    and s2: "process_items produtos st1 ps = Inr st'"
    by (auto split: sum.splits)
  note ih = Cons.IH [OF s2]
  show ?case
  proof (cases "item_of produtos p")
    case None
    from process_item_error [OF this, of st] s1 show ?thesis by auto
  next
    case (Some r)
    show ?thesis
    proof (cases r)
      case (Inl nome)
      with Some process_item_unmatched [of produtos p nome st] s1
      have "st1 = st\<lparr>printed := printed st @ [aviso_line nome]\<rparr>" by simp
      with ih Some Inl show ?thesis by (simp add: matched_items_def unmatched_names_def)
    next
      case (Inr m)
      with Some process_item_matched [of produtos p m st] s1
      have "st1 = st\<lparr>total := fadd (total st) (subtotal_of m),
            itens_pedidos := itens_pedidos st @ [line_of m]\<rparr>" by simp
      with ih Some Inr show ?thesis by (simp add: matched_items_def unmatched_names_def)
    qed
  qed
qed

lemma process_items_total:
  assumes "\<forall>p\<in>set ps. item_of produtos p \<noteq> None"
  shows "\<exists>st'. process_items produtos st ps = Inr st'"
  using assms
proof (induction ps arbitrary: st)
  case Nil
  then show ?case by simp
next
  case (Cons p ps)
  then obtain r where r: "item_of produtos p = Some r" by auto
  have "\<exists>st1. process_item produtos st p = Inr st1"
    using r process_item_unmatched [of produtos p _ st] process_item_matched [of produtos p _ st]
    by (cases r) auto
  with Cons show ?case by auto
qed

lemma calcular_result:
  assumes "calcular_pedido_completo pedido produtos = Inr ((t, itens), out)"
  shows "t = round2 (foldl fadd (Fin 0) (map subtotal_of (matched_items produtos (palavras pedido)))) \<and>
         itens = map line_of (matched_items produtos (palavras pedido)) \<and>
         out = map aviso_line (unmatched_names produtos (palavras pedido))"
proof -
  from assms obtain st' where
    s: "process_items produtos \<lparr>total = Fin 0, itens_pedidos = [], printed = []\<rparr> (palavras pedido) = Inr st'"
    and r: "t = round2 (total st')" "itens = itens_pedidos st'" "out = printed st'"
    by (auto simp: calcular_pedido_completo_def split: sum.splits)
  from process_items_result [OF s] r show ?thesis by simp
qed

section \<open>The end-to-end scenarios\<close>

lemma calculate_ratio_small:
  assumes "len \<noteq> 0" "2 * m < 2 ^ 53" "len < 2 ^ 53"
  shows "calculate_ratio m len = to_double (of_nat (2 * m) / of_nat len)"
proof -
  from assms(2) have m: "m < 2 ^ 53" by simp
  have "fmul (Fin 2) (float_of_len m) = to_double (of_nat (2 * m))"
    by (simp add: float_of_len_def to_double_of_nat [OF m])
  also have "\<dots> = Fin (of_nat (2 * m))" by (rule to_double_of_nat [OF assms(2)])
  finally show ?thesis
    using assms(1) by (simp add: calculate_ratio_def float_of_len_def to_double_of_nat [OF assms(3)])
qed

lemma to_double_half: "to_double (1 / 2) = Fin (1 / 2)"
  by (rule to_double_exact [of 1 "- 1"]) (simp_all add: power_int_minus)

lemma below_cutoff: "q \<le> 1 / 2 \<Longrightarrow> \<not> fge (to_double q) cutoff"
proof
  assume "q \<le> 1 / 2" "fge (to_double q) cutoff"
  from to_double_mono [OF this(1)] this(2) have "fge (to_double (1 / 2)) cutoff"
    by (rule fge_trans)
  then show False by (simp add: to_double_half cutoff_value)
qed

definition order_two_items :: ustr where
  "order_two_items = ascii ''2 paes franceses e 1 bolo inteiro chocolate''"

definition order_unknown :: ustr where
  "order_unknown = ascii ''3 xyz inexistente''"

lemma names_example:
  "nomes_prod_norm example_catalog = [ascii ''pao frances'', ascii ''bolo inteiro chocolate'']"
  by (simp add: nomes_prod_norm_def example_catalog_def pao_frances_def ascii_def ucd_eval)

lemma mapa_example:
  "mapa_produtos example_catalog (ascii ''pao frances'') = Some (pao_frances, price_080)"
  "mapa_produtos example_catalog (ascii ''bolo inteiro chocolate'') =
     Some (ascii ''Bolo Inteiro Chocolate'', Fin 38)"
  by (simp_all add: mapa_produtos_def example_catalog_def pao_frances_def ascii_def ucd_eval)

lemma palavras_two_items:
  "palavras order_two_items = [ascii ''2 paes franceses'', ascii ''1 bolo inteiro chocolate'']"
proof -
  have "plain order_two_items" by (simp add: plain_def order_two_items_def ascii_def)
  then have "normalize order_two_items = order_two_items" by (rule normalize_plain)
  then show ?thesis
    by (simp add: palavras_spec) (simp add: order_two_items_def text_eval)
qed

lemma palavras_unknown: "palavras order_unknown = [ascii ''3 xyz inexistente'']"
proof -
  have "plain order_unknown" by (simp add: plain_def order_unknown_def ascii_def)
  then have "normalize order_unknown = order_unknown" by (rule normalize_plain)
  then show ?thesis
    by (simp add: palavras_spec) (simp add: order_unknown_def text_eval)
qed

lemma parse_examples:
  "parse_item (ascii ''2 paes franceses'') = Inr (2, ascii ''paes franceses'')"
  "parse_item (ascii ''1 bolo inteiro chocolate'') = Inr (1, ascii ''bolo inteiro chocolate'')"
  "parse_item (ascii ''3 xyz inexistente'') = Inr (3, ascii ''xyz inexistente'')"
  unfolding parse_item_def
  by (simp add: text_eval re_match_def qtd_pattern_def, simp add: py_int_def text_eval int_max_str_digits_def)+

lemma matches_examples:
  "matches (ascii ''pao frances'') (ascii ''paes franceses'') = 10"
  "matches (ascii ''bolo inteiro chocolate'') (ascii ''paes franceses'') = 4"
  "matches (ascii ''pao frances'') (ascii ''bolo inteiro chocolate'') = 5"
  "matches (ascii ''bolo inteiro chocolate'') (ascii ''bolo inteiro chocolate'') = 22"
  "matches (ascii ''pao frances'') (ascii ''xyz inexistente'') = 4"
  "matches (ascii ''bolo inteiro chocolate'') (ascii ''xyz inexistente'') = 7"
  by (simp_all add: ascii_def difflib_eval)

lemma ratio_examples:
  "ratio (ascii ''pao frances'') (ascii ''paes franceses'') = to_double (4 / 5)"
  "ratio (ascii ''bolo inteiro chocolate'') (ascii ''paes franceses'') = to_double (2 / 9)"
  "ratio (ascii ''pao frances'') (ascii ''bolo inteiro chocolate'') = to_double (10 / 33)"
  "ratio (ascii ''bolo inteiro chocolate'') (ascii ''bolo inteiro chocolate'') = Fin 1"
  "ratio (ascii ''pao frances'') (ascii ''xyz inexistente'') = to_double (4 / 13)"
  "ratio (ascii ''bolo inteiro chocolate'') (ascii ''xyz inexistente'') = to_double (14 / 37)"
  unfolding ratio_def matches_examples
  by (subst calculate_ratio_small; simp add: ascii_def)+

lemma passes_cutoff: "fge (to_double (4 / 5)) cutoff" "fge (Fin 1) cutoff"
  by (simp_all add: d080 cutoff_value)

lemma close_paes:
  "get_close_matches (ascii ''paes franceses'') (nomes_prod_norm example_catalog) = [ascii ''pao frances'']"
  by (simp add: names_example get_close_matches_def scored_filter nlargest1_def ratio_examples
      below_cutoff passes_cutoff)

lemma close_bolo:
  "get_close_matches (ascii ''bolo inteiro chocolate'') (nomes_prod_norm example_catalog) =
     [ascii ''bolo inteiro chocolate'']"
  by (simp add: names_example get_close_matches_def scored_filter nlargest1_def ratio_examples
      below_cutoff passes_cutoff)

lemma close_unknown:
  "get_close_matches (ascii ''xyz inexistente'') (nomes_prod_norm example_catalog) = []"
  by (simp add: names_example get_close_matches_def scored_filter nlargest1_def ratio_examples
      below_cutoff)

text \<open>The floats \<open>1.6\<close> (twice \<open>0.80\<close>, exactly) and \<open>39.6\<close>.\<close>

definition float_1_6 :: pyfloat where
  "float_1_6 = Fin (3602879701896397 / 2251799813685248)"

definition float_39_6 :: pyfloat where
  "float_39_6 = Fin (5573204538870989 / 140737488355328)"

lemma float_39_6_nearest: "float_39_6 = to_double (198 / 5)"
  unfolding float_39_6_def
  by (subst to_double_eval [of 5]) (simp_all add: Let_def power_int_minus)

lemma float_steps:
  "float_of_int 2 = Inr (Fin 2)" "float_of_int 1 = Inr (Fin 1)"
  "fmul price_080 (Fin 2) = float_1_6"
  "fadd (Fin 0) float_1_6 = float_1_6"
  "fmul (Fin 38) (Fin 1) = Fin 38"
  "fadd float_1_6 (Fin 38) = float_39_6"
  "round2 float_39_6 = float_39_6"
proof -
  show "float_of_int 2 = Inr (Fin 2)" "float_of_int 1 = Inr (Fin 1)"
    by (simp_all add: float_of_int_def)
  have e: "to_double (3602879701896397 / 2251799813685248) = Fin (3602879701896397 / 2251799813685248)"
    by (subst to_double_eval [of 0]) (simp_all add: Let_def power_int_minus)
  show "fmul price_080 (Fin 2) = float_1_6" "fadd (Fin 0) float_1_6 = float_1_6"
    by (simp_all add: price_080_def float_1_6_def e)
  show "fmul (Fin 38) (Fin 1) = Fin 38" by simp
  show "fadd float_1_6 (Fin 38) = float_39_6"
    unfolding float_1_6_def float_39_6_def fadd.simps
    by (subst to_double_eval [of 5]) (simp_all add: Let_def power_int_minus)
  show "round2 float_39_6 = float_39_6"
    unfolding float_39_6_def round2.simps
    by (simp, subst to_double_eval [of 5]) (simp_all add: Let_def power_int_minus)
qed

lemma item_lines:
  "item_line 2 pao_frances float_1_6 = ascii ''2 '' @ pao_frances @ [32, 8212, 32] @ ascii ''R$1.60''"
  "item_line 1 (ascii ''Bolo Inteiro Chocolate'') (Fin 38) =
     ascii ''1 Bolo Inteiro Chocolate '' @ [8212] @ ascii '' R$38.00''"
  by (simp_all add: item_line_def float_1_6_def str_of_nat.simps ascii_def)

lemma float_steps_Suc:
  "float_of_int (Suc 0) = Inr (Fin 1)"
  "item_line (Suc 0) (ascii ''Bolo Inteiro Chocolate'') (Fin 38) =
     ascii ''1 Bolo Inteiro Chocolate '' @ [8212] @ ascii '' R$38.00''"
  using float_steps(2) item_lines(2) by simp_all

lemma item_of_examples:
  "item_of example_catalog (ascii ''2 paes franceses'') =
     Some (Inr (2, (pao_frances, price_080), float_1_6))"
  "item_of example_catalog (ascii ''1 bolo inteiro chocolate'') =
     Some (Inr (1, (ascii ''Bolo Inteiro Chocolate'', Fin 38), Fin 38))"
  "item_of example_catalog (ascii ''3 xyz inexistente'') = Some (Inl (ascii ''xyz inexistente''))"
  by (simp_all add: item_of_def parse_examples close_paes close_bolo close_unknown mapa_example
      float_steps float_steps_Suc)

lemma calcular_two_items:
  "calcular_pedido_completo order_two_items example_catalog =
     Inr ((float_39_6,
           [ascii ''2 '' @ pao_frances @ [32, 8212, 32] @ ascii ''R$1.60'',
            ascii ''1 Bolo Inteiro Chocolate '' @ [8212] @ ascii '' R$38.00'']), [])"
  by (simp add: calcular_pedido_completo_def palavras_two_items
      process_item_matched [OF item_of_examples(1)] process_item_matched [OF item_of_examples(2)]
      subtotal_of_def line_of_def float_steps item_lines float_steps_Suc)

lemma calcular_unknown:
  "calcular_pedido_completo order_unknown example_catalog =
     Inr ((Fin 0, []), [aviso_line (ascii ''xyz inexistente'')])"
  by (simp add: calcular_pedido_completo_def palavras_unknown
      process_item_unmatched [OF item_of_examples(3)])

text \<open>
  C1: against the catalog extracted from the example price list, the order
  \<open>2 paes franceses e 1 bolo inteiro chocolate\<close> returns the total 39.6 (the float nearest
  to 39.60, which is the float sum of 1.6 and 38.0), the two item lines of
  the first catalog entry at 1.60 and \<open>Bolo Inteiro Chocolate\<close> at 38.00, and prints no warning.
\<close>

theorem order_two_items_end_to_end:
  "calcular_pedido_completo (ascii ''2 paes franceses e 1 bolo inteiro chocolate'')
       (extract_products example_catalog_text) =
     Inr ((to_double (198 / 5),
           [ascii ''2 '' @ pao_frances @ [32, 8212, 32] @ ascii ''R$1.60'',
            ascii ''1 Bolo Inteiro Chocolate '' @ [8212] @ ascii '' R$38.00'']), []) \<and>
   to_double (198 / 5) = fadd (fmul (to_double (4 / 5)) (Fin 2)) (fmul (Fin 38) (Fin 1))"
proof -
  have "fadd (fmul (to_double (4 / 5)) (Fin 2)) (fmul (Fin 38) (Fin 1)) = float_39_6"
    using float_steps by (simp add: price_080_nearest [symmetric])
  then show ?thesis
    using calcular_two_items
    by (simp add: extract_products_example order_two_items_def float_39_6_nearest)
qed

section \<open>Subtotals and the total\<close>

text \<open>
  Rounding to two decimals in exact arithmetic: the decimal that \<open>round(x, 2)\<close> aims at,
  before it is converted to a float.
\<close>

definition round_dec2 :: "rat \<Rightarrow> rat" where
  "round_dec2 x = of_int (round_half_even (x * 100)) / 100"

text \<open>The exact subtotals of a list of prices in cents with their quantities.\<close>

definition exact_subtotals :: "(int \<times> nat) list \<Rightarrow> rat list" where
  "exact_subtotals cqs = map (\<lambda>(c, n). of_int c / 100 * of_nat n) cqs"

lemma round2_dec: "round2 (Fin x) = to_double (round_dec2 x)"
  by (simp add: round_dec2_def)

lemma round_dec2_cents: "round_dec2 (of_int k / 100) = of_int k / 100"
  by (simp add: round_dec2_def)

lemma exact_subtotals_cents:
  "exact_subtotals cqs = map (\<lambda>(c, n). of_int (c * int n) / 100) cqs"
  by (simp add: exact_subtotals_def split_def)

lemma sum_cents:
  "sum_list (map (\<lambda>(c, n). of_int (c * int n) / 100) cqs) =
     (of_int (sum_list (map (\<lambda>(c, n). c * int n) cqs)) / 100 :: rat)"
  by (induction cqs) (auto simp: add_divide_distrib)

lemma round_dec2_product:
  "round_dec2 (of_int c * of_nat n / 100) = of_int c * of_nat n / 100"
  using round_dec2_cents [of "c * int n"] by simp

lemma exact_subtotals_round:
  "map round_dec2 (exact_subtotals cqs) = exact_subtotals cqs"
  by (induction cqs) (simp_all add: exact_subtotals_def split_def round_dec2_product)

lemma exact_total_round:
  "round_dec2 (sum_list (exact_subtotals cqs)) = sum_list (exact_subtotals cqs)"
  unfolding exact_subtotals_cents sum_cents by (rule round_dec2_cents)

lemma foldl_upd_lookup:
  assumes "foldl (\<lambda>m p. m(normalize (fst p) \<mapsto> p)) m0 ps k = Some p"
  shows "m0 k = Some p \<or> (p \<in> set ps \<and> normalize (fst p) = k)"
  using assms
proof (induction ps arbitrary: m0)
  case Nil
  then show ?case by simp
next
  case (Cons a ps)
  from Cons.prems
  have "foldl (\<lambda>m p. m(normalize (fst p) \<mapsto> p)) (m0(normalize (fst a) \<mapsto> a)) ps k = Some p"
    by (simp only: foldl_Cons)
  from Cons.IH [OF this] show ?case
    by (auto split: if_splits)
qed

lemma mapa_produtos_mem:
  "mapa_produtos produtos k = Some p \<Longrightarrow> p \<in> set produtos \<and> normalize (fst p) = k"
  using foldl_upd_lookup [of Map.empty produtos k p] by (simp add: mapa_produtos_def)

lemma item_of_Inr:
  assumes "item_of produtos p = Some (Inr (qtd, produto, sub))"
  shows "produto \<in> set produtos \<and> (\<exists>q. float_of_int qtd = Inr q \<and> sub = fmul (snd produto) q)"
  using assms mapa_produtos_mem [of produtos _ produto]
  by (auto simp: item_of_def split: sum.splits prod.splits list.splits option.splits)

lemma matched_items_mem:
  "m \<in> set (matched_items produtos ps) \<Longrightarrow> \<exists>p\<in>set ps. item_of produtos p = Some (Inr m)"
  by (auto simp: matched_items_def split: option.splits sum.splits)

lemma process_item_subtotal:
  assumes "parse_item p = Inr (qtd, nome)"
    and "get_close_matches nome (nomes_prod_norm produtos) = nm # ms"
    and "mapa_produtos produtos nm = Some (nome_original, preco)"
    and "float_of_int qtd = Inr q"
  shows "process_item produtos st p =
     Inr (st\<lparr>total := fadd (total st) (fmul preco q),
            itens_pedidos := itens_pedidos st @ [item_line qtd nome_original (fmul preco q)]\<rparr>)"
  using assms by (simp add: process_item_def Let_def)

lemma matched_two_items:
  "matched_items example_catalog (palavras order_two_items) =
     [(2, (pao_frances, price_080), float_1_6),
      (1, (ascii ''Bolo Inteiro Chocolate'', Fin 38), Fin 38)]"
  by (simp add: matched_items_def palavras_two_items item_of_examples)

text \<open>
  C5: a fragment that is matched adds to the running total the float product of the unit
  price of the catalog entry and the quantity, unrounded, and its item line shows that
  product. The total returned is the left-to-right float sum of these subtotals, from
  \<open>0.0\<close>, rounded to two decimals once, at the end; the item lines are those of the matched
  fragments, in order. Each matched item is an entry of the catalog with the product of
  its price and the quantity. In exact arithmetic, with prices in whole cents, rounding a
  subtotal to two decimals changes nothing, and neither does rounding their sum.
\<close>

theorem subtotal_and_total:
  "(parse_item p = Inr (qtd, nome) \<and>
    get_close_matches nome (nomes_prod_norm produtos) = nm # ms \<and>
    mapa_produtos produtos nm = Some (nome_original, preco) \<and>
    float_of_int qtd = Inr q \<longrightarrow>
      process_item produtos st p =
        Inr (st\<lparr>total := fadd (total st) (fmul preco q),
               itens_pedidos := itens_pedidos st @
                 [item_line qtd nome_original (fmul preco q)]\<rparr>)) \<and>
   (calcular_pedido_completo pedido produtos = Inr ((t, itens), out) \<longrightarrow>
      t = round2 (foldl fadd (Fin 0)
            (map subtotal_of (matched_items produtos (palavras pedido)))) \<and>
      itens = map line_of (matched_items produtos (palavras pedido))) \<and>
   (\<forall>(qtd', produto, sub) \<in> set (matched_items produtos ps).
      produto \<in> set produtos \<and>
      (\<exists>q'. float_of_int qtd' = Inr q' \<and> sub = fmul (snd produto) q')) \<and>
   map round_dec2 (exact_subtotals cqs) = exact_subtotals cqs \<and>
   round_dec2 (sum_list (exact_subtotals cqs)) = sum_list (exact_subtotals cqs)"
proof -
  have a: "parse_item p = Inr (qtd, nome) \<and>
    get_close_matches nome (nomes_prod_norm produtos) = nm # ms \<and>
    mapa_produtos produtos nm = Some (nome_original, preco) \<and>
    float_of_int qtd = Inr q \<longrightarrow>
      process_item produtos st p =
        Inr (st\<lparr>total := fadd (total st) (fmul preco q),
               itens_pedidos := itens_pedidos st @
                 [item_line qtd nome_original (fmul preco q)]\<rparr>)"
    using process_item_subtotal [of p qtd nome produtos nm ms nome_original preco q st] by blast
  have b: "calcular_pedido_completo pedido produtos = Inr ((t, itens), out) \<longrightarrow>
      t = round2 (foldl fadd (Fin 0)
            (map subtotal_of (matched_items produtos (palavras pedido)))) \<and>
      itens = map line_of (matched_items produtos (palavras pedido))"
    using calcular_result [of pedido produtos t itens out] by blast
  have c: "\<forall>(qtd', produto, sub) \<in> set (matched_items produtos ps).
      produto \<in> set produtos \<and>
      (\<exists>q'. float_of_int qtd' = Inr q' \<and> sub = fmul (snd produto) q')"
  proof -
    have "case m of (qtd', produto, sub) \<Rightarrow> produto \<in> set produtos \<and>
        (\<exists>q'. float_of_int qtd' = Inr q' \<and> sub = fmul (snd produto) q')"
      if "m \<in> set (matched_items produtos ps)" for m
    proof -
      from matched_items_mem [OF that] obtain p' where p': "item_of produtos p' = Some (Inr m)"
        by blast
      obtain qtd' produto sub where m: "m = (qtd', produto, sub)" by (cases m) auto
      from item_of_Inr [OF p' [unfolded m]] show ?thesis by (simp add: m)
    qed
    then show ?thesis by blast
  qed
  from a b c exact_subtotals_round [of cqs] exact_total_round [of cqs] show ?thesis
    by (intro conjI)
qed

theorem subtotal_and_total_witness:
  "process_item example_catalog \<lparr>total = Fin 0, itens_pedidos = [], printed = []\<rparr>
       (ascii ''2 paes franceses'') =
     Inr \<lparr>total = fmul price_080 (Fin 2),
          itens_pedidos = [item_line 2 pao_frances (fmul price_080 (Fin 2))], printed = []\<rparr> \<and>
   calcular_pedido_completo order_two_items example_catalog =
     Inr ((float_39_6,
           [ascii ''2 '' @ pao_frances @ [32, 8212, 32] @ ascii ''R$1.60'',
            ascii ''1 Bolo Inteiro Chocolate '' @ [8212] @ ascii '' R$38.00'']), []) \<and>
   float_39_6 = round2 (fadd (fadd (Fin 0) float_1_6) (Fin 38)) \<and>
   (2, (pao_frances, price_080), float_1_6) \<in>
     set (matched_items example_catalog (palavras order_two_items)) \<and>
   (pao_frances, price_080) \<in> set example_catalog \<and>
   float_1_6 = fmul price_080 (Fin 2) \<and>
   exact_subtotals [(80, 2), (3800, 1)] = [8 / 5, 38] \<and>
   round_dec2 (8 / 5 + 38) = 8 / 5 + 38"
proof -
  note t = subtotal_and_total [of "ascii ''2 paes franceses''" 2 "ascii ''paes franceses''"
      example_catalog "ascii ''pao frances''" "[]" pao_frances price_080 "Fin 2"
      "\<lparr>total = Fin 0, itens_pedidos = [], printed = []\<rparr>" order_two_items float_39_6
      "[ascii ''2 '' @ pao_frances @ [32, 8212, 32] @ ascii ''R$1.60'',
        ascii ''1 Bolo Inteiro Chocolate '' @ [8212] @ ascii '' R$38.00'']" "[]"
      "palavras order_two_items" "[(80, 2), (3800, 1)]"]
  have h: "parse_item (ascii ''2 paes franceses'') = Inr (2, ascii ''paes franceses'') \<and>
    get_close_matches (ascii ''paes franceses'') (nomes_prod_norm example_catalog) =
      [ascii ''pao frances''] \<and>
    mapa_produtos example_catalog (ascii ''pao frances'') = Some (pao_frances, price_080) \<and>
    float_of_int 2 = Inr (Fin 2)"
    by (simp add: parse_examples close_paes mapa_example float_steps)
  have e: "exact_subtotals [(80, 2), (3800, 1)] = [8 / 5, 38]"
    by (simp add: exact_subtotals_def)
  have m: "(2, (pao_frances, price_080), float_1_6) \<in>
     set (matched_items example_catalog (palavras order_two_items))"
    by (simp add: matched_two_items)
  from t h have p1: "process_item example_catalog \<lparr>total = Fin 0, itens_pedidos = [], printed = []\<rparr>
       (ascii ''2 paes franceses'') =
     Inr \<lparr>total = fmul price_080 (Fin 2),
          itens_pedidos = [item_line 2 pao_frances (fmul price_080 (Fin 2))], printed = []\<rparr>"
    by (simp add: float_steps)
  from t calcular_two_items
  have p2: "float_39_6 = round2 (fadd (fadd (Fin 0) float_1_6) (Fin 38))"
    by (simp add: matched_two_items subtotal_of_def)
  from t m have p3: "(pao_frances, price_080) \<in> set example_catalog \<and>
    float_1_6 = fmul price_080 (Fin 2)"
    by (auto simp: float_steps)
  from t e have p4: "round_dec2 (8 / 5 + 38) = 8 / 5 + 38" by simp
  from p1 calcular_two_items p2 m p3 e p4 show ?thesis by (intro conjI) simp_all
qed

section \<open>Segments that yield an entry\<close>

text \<open>The pattern after its first group: from the whitespace before the dash on.\<close>

definition pattern_tail :: regex where
  "pattern_tail =
     Cat (Star Space)
    (Cat (Ch (Lit 8212))
    (Cat (Star Space)
    (Cat (Ch (Lit 82))
    (Cat (Ch (Lit 36))
    (Cat (Star Space)
         (Grp (Cat (Plus Digit) (Cat (Ch (InSet [44, 46])) (Times (Suc (Suc 0)) Digit)))))))))"

lemma pattern_tail: "pattern = Cat (Grp (PlusLazy AnyChar)) pattern_tail"
  by (simp add: pattern_def pattern_tail_def)

lemma rmatch_Star_head: "\<exists>t. rmatch (Star k) s = ([], dropWhile (cc_match k) s) # t"
  using star_greedy_head [of k s] by auto

lemma rmatch_spaces_head:
  assumes "list_all is_space w" "\<not> is_space x"
  shows "\<exists>t. rmatch (Star Space) (w @ x # xs) = ([], x # xs) # t"
  using rmatch_Star_head [of Space "w @ x # xs"] dropWhile_all [OF assms]
  by (simp add: cc_match_eta)

lemma not_space_marks: "\<not> is_space 8212" "\<not> is_space 82"
  by (simp_all add: is_space_def)

lemma amount_head:
  assumes "ds \<noteq> []" "list_all is_digit (ds @ [d1, d2])" "sep = 44 \<or> sep = 46"
  shows "\<exists>t. rmatch (Grp (Cat (Plus Digit) (Cat (Ch (InSet [44, 46])) (Times (Suc (Suc 0)) Digit))))
             (ds @ [sep, d1, d2] @ rest) = ([ds @ [sep, d1, d2]], rest) # t"
proof -
  from assms(1) obtain d ds' where ds: "ds = d # ds'" by (cases ds) auto
  from assms(2) have dig: "list_all is_digit ds" "is_digit d" "is_digit d1" "is_digit d2"
    by (auto simp: ds)
  from assms(3) not_digit_sep [of sep] have sep: "\<not> is_digit sep" by auto
  from rmatch_Plus_head [of Digit d "ds' @ [sep, d1, d2] @ rest"] dig(2)
    dropWhile_all [OF dig(1) sep, of "[d1, d2] @ rest"]
  obtain t1 where
    p: "rmatch (Plus Digit) (ds @ [sep, d1, d2] @ rest) = ([], sep # d1 # d2 # rest) # t1"
    by (auto simp: cc_match_eta ds)
  have c: "rmatch (Cat (Ch (InSet [44, 46])) (Times (Suc (Suc 0)) Digit)) (sep # d1 # d2 # rest)
      = ([], rest) # []"
    using assms(3) dig by auto
  from rmatch_Cat_head [OF p c] obtain t2 where
    "rmatch (Cat (Plus Digit) (Cat (Ch (InSet [44, 46])) (Times (Suc (Suc 0)) Digit)))
       (ds @ [sep, d1, d2] @ rest) = ([], rest) # t2" by auto
  from rmatch_Grp_head [OF this] show ?thesis by auto
qed

lemma pattern_tail_head:
  assumes w: "list_all is_space (w1 @ w2 @ w3)"
    and d: "ds \<noteq> []" "list_all is_digit (ds @ [d1, d2])" "sep = 44 \<or> sep = 46"
  shows "\<exists>t. rmatch pattern_tail (w1 @ [8212] @ w2 @ [82, 36] @ w3 @ ds @ [sep, d1, d2] @ rest)
           = ([ds @ [sep, d1, d2]], rest) # t"
proof -
  from w have w1: "list_all is_space w1" and w2: "list_all is_space w2"
    and w3: "list_all is_space w3" by simp_all
  from d(1) obtain x ds' where ds: "ds = x # ds'" by (cases ds) auto
  with d(2) have "is_digit x" by simp
  then have x: "\<not> is_space x" by (rule digit_not_space)
  define A where "A = ds @ [sep, d1, d2] @ rest"
  from amount_head [OF d, of rest] obtain t7 where
    g7: "rmatch (Grp (Cat (Plus Digit) (Cat (Ch (InSet [44, 46])) (Times (Suc (Suc 0)) Digit)))) A
      = ([ds @ [sep, d1, d2]], rest) # t7" by (auto simp: A_def)
  have A: "A = x # (ds' @ [sep, d1, d2] @ rest)" by (simp add: A_def ds)
  from rmatch_spaces_head [OF w3 x, of "ds' @ [sep, d1, d2] @ rest"] obtain t6 where
    g6: "rmatch (Star Space) (w3 @ A) = ([], A) # t6" by (auto simp: A)
  from rmatch_Cat_head [OF g6 g7] obtain t6' where
    h6: "rmatch (Cat (Star Space)
       (Grp (Cat (Plus Digit) (Cat (Ch (InSet [44, 46])) (Times (Suc (Suc 0)) Digit))))) (w3 @ A)
      = ([ds @ [sep, d1, d2]], rest) # t6'" by auto
  have g5: "rmatch (Ch (Lit 36)) (36 # w3 @ A) = ([], w3 @ A) # []" by simp
  from rmatch_Cat_head [OF g5 h6] obtain t5 where
    h5: "rmatch (Cat (Ch (Lit 36)) (Cat (Star Space)
       (Grp (Cat (Plus Digit) (Cat (Ch (InSet [44, 46])) (Times (Suc (Suc 0)) Digit))))))
       (36 # w3 @ A) = ([ds @ [sep, d1, d2]], rest) # t5" by auto
  have g4: "rmatch (Ch (Lit 82)) (82 # 36 # w3 @ A) = ([], 36 # w3 @ A) # []" by simp
  from rmatch_Cat_head [OF g4 h5] obtain t4 where
    h4: "rmatch (Cat (Ch (Lit 82)) (Cat (Ch (Lit 36)) (Cat (Star Space)
       (Grp (Cat (Plus Digit) (Cat (Ch (InSet [44, 46])) (Times (Suc (Suc 0)) Digit)))))))
       (82 # 36 # w3 @ A) = ([ds @ [sep, d1, d2]], rest) # t4" by auto
  from rmatch_spaces_head [OF w2 not_space_marks(2), of "36 # w3 @ A"] obtain t3 where
    g3: "rmatch (Star Space) (w2 @ 82 # 36 # w3 @ A) = ([], 82 # 36 # w3 @ A) # t3" by auto
  from rmatch_Cat_head [OF g3 h4] obtain t3' where
    h3: "rmatch (Cat (Star Space) (Cat (Ch (Lit 82)) (Cat (Ch (Lit 36)) (Cat (Star Space)
       (Grp (Cat (Plus Digit) (Cat (Ch (InSet [44, 46])) (Times (Suc (Suc 0)) Digit))))))))
       (w2 @ 82 # 36 # w3 @ A) = ([ds @ [sep, d1, d2]], rest) # t3'" by auto
  have g2: "rmatch (Ch (Lit 8212)) (8212 # w2 @ 82 # 36 # w3 @ A) = ([], w2 @ 82 # 36 # w3 @ A) # []"
    by simp
  from rmatch_Cat_head [OF g2 h3] obtain t2 where
    h2: "rmatch (Cat (Ch (Lit 8212)) (Cat (Star Space) (Cat (Ch (Lit 82)) (Cat (Ch (Lit 36))
       (Cat (Star Space)
       (Grp (Cat (Plus Digit) (Cat (Ch (InSet [44, 46])) (Times (Suc (Suc 0)) Digit)))))))))
       (8212 # w2 @ 82 # 36 # w3 @ A) = ([ds @ [sep, d1, d2]], rest) # t2" by auto
  from rmatch_spaces_head [OF w1 not_space_marks(1), of "w2 @ 82 # 36 # w3 @ A"] obtain t1 where
    g1: "rmatch (Star Space) (w1 @ 8212 # w2 @ 82 # 36 # w3 @ A) =
      ([], 8212 # w2 @ 82 # 36 # w3 @ A) # t1" by auto
  from rmatch_Cat_head [OF g1 h2] obtain t where
    "rmatch pattern_tail (w1 @ 8212 # w2 @ 82 # 36 # w3 @ A) = ([ds @ [sep, d1, d2]], rest) # t"
    unfolding pattern_tail_def by auto
  then show ?thesis by (auto simp: A_def)
qed

lemma star_greedy_stop:
  assumes "s1 \<in> set (star_greedy k (u @ x # t))" "\<not> cc_match k x"
  shows "\<exists>u'. s1 = u' @ x # t \<and> set u' \<subseteq> set u"
  using assms
proof (induction u)
  case Nil
  then show ?case by simp
next
  case (Cons a u)
  show ?case
  proof (cases "s1 = a # u @ x # t")
    case True
    then have "s1 = (a # u) @ x # t \<and> set (a # u) \<subseteq> set (a # u)" by simp
    then show ?thesis by blast
  next
    case False
    with Cons.prems have "s1 \<in> set (star_greedy k (u @ x # t))" by (auto split: if_splits)
    from Cons.IH [OF this Cons.prems(2)] show ?thesis by auto
  qed
qed

lemma concat_map_Nil: "(\<And>x. x \<in> set xs \<Longrightarrow> f x = []) \<Longrightarrow> concat (map f xs) = []"
  by (induction xs) auto

lemma pattern_tail_none:
  assumes "8212 \<notin> set u" "\<not> is_space x" "x \<noteq> 8212"
  shows "rmatch pattern_tail (u @ x # t) = []"
proof -
  define R where "R = Cat (Star Space) (Cat (Ch (Lit 82)) (Cat (Ch (Lit 36)) (Cat (Star Space)
       (Grp (Cat (Plus Digit) (Cat (Ch (InSet [44, 46])) (Times (Suc (Suc 0)) Digit)))))))"
  have "rmatch (Cat (Ch (Lit 8212)) R) s1 = []" if "s1 \<in> set (star_greedy Space (u @ x # t))" for s1
  proof -
    from star_greedy_stop [OF that] assms(2) obtain u' where
      "s1 = u' @ x # t" "set u' \<subseteq> set u" by auto
    with assms(1,3) have "rmatch (Ch (Lit 8212)) s1 = []" by (cases u') auto
    then show ?thesis by simp
  qed
  then have "concat (map (\<lambda>s1. map (\<lambda>(g2, s2). ([] @ g2, s2)) (rmatch (Cat (Ch (Lit 8212)) R) s1))
      (star_greedy Space (u @ x # t))) = []"
    by (intro concat_map_Nil) simp
  then show ?thesis by (simp add: pattern_tail_def R_def comp_def)
qed

lemma star_lazy_head: "\<exists>r. star_lazy k t = t # r"
  by (cases t) auto

lemma star_lazy_skip:
  assumes "list_all (cc_match k) a" "\<And>j. j < length a \<Longrightarrow> F (drop j a @ t) = []"
  shows "concat (map F (star_lazy k (a @ t))) = concat (map F (star_lazy k t))"
  using assms
proof (induction a)
  case Nil
  then show ?case by simp
next
  case (Cons x a)
  from Cons.prems(2) [of 0] have f0: "F (x # a @ t) = []" by simp
  have "F (drop j a @ t) = []" if "j < length a" for j
    using Cons.prems(2) [of "Suc j"] that by simp
  with Cons.prems(1) have "concat (map F (star_lazy k (a @ t))) = concat (map F (star_lazy k t))"
    by (intro Cons.IH) simp_all
  with Cons.prems(1) f0 show ?case by simp
qed

lemma pattern_head:
  assumes g1: "g1 \<noteq> []" "10 \<notin> set g1" "8212 \<notin> set g1" "\<not> is_space (last g1)"
    and w: "list_all is_space (w1 @ w2 @ w3)"
    and d: "ds \<noteq> []" "list_all is_digit (ds @ [d1, d2])" "sep = 44 \<or> sep = 46"
  shows "re_search pattern (g1 @ w1 @ [8212] @ w2 @ [82, 36] @ w3 @ ds @ [sep, d1, d2] @ rest)
           = Some [g1, ds @ [sep, d1, d2]]"
proof -
  define t where "t = w1 @ [8212] @ w2 @ [82, 36] @ w3 @ ds @ [sep, d1, d2] @ rest"
  from g1(1) obtain c a where ca: "g1 = c # a" by (cases g1) auto
  define F where "F = (\<lambda>s'. map (\<lambda>(g2, s2). ([take (length (c # a @ t) - length s') (c # a @ t)] @ g2, s2))
      (rmatch pattern_tail s'))"
  from g1(2) have c: "c \<noteq> 10" and a: "list_all (cc_match AnyChar) a"
    by (auto simp: ca list_all_iff)
  have r: "rmatch pattern (c # a @ t) = concat (map F (star_lazy AnyChar (a @ t)))"
    using c by (simp add: pattern_tail F_def comp_def split_def)
  have none: "F (drop j a @ t) = []" if j: "j < length a" for j
  proof -
    from j have ne: "drop j a \<noteq> []" by simp
    then have "butlast (drop j a) @ [last (drop j a)] = drop j a"
      by (rule append_butlast_last_id)
    then have "drop j a = butlast (drop j a) @ [last (drop j a)]" by (rule sym)
    moreover from j have "last (drop j a) = last g1" by (cases a) (simp_all add: ca)
    ultimately have e: "drop j a @ t = butlast (drop j a) @ last g1 # t" by simp
    have "set (butlast (drop j a)) \<subseteq> set g1"
      using in_set_butlastD [of _ "drop j a"] in_set_dropD [of _ j a] by (auto simp: ca)
    with g1(3) have u: "8212 \<notin> set (butlast (drop j a))" by auto
    from last_in_set [OF g1(1)] g1(3) have "last g1 \<noteq> 8212" by metis
    from pattern_tail_none [OF u g1(4) this, of t] show ?thesis by (simp add: F_def e)
  qed
  from star_lazy_skip [of AnyChar a F t, OF a none]
  have s: "concat (map F (star_lazy AnyChar (a @ t))) = concat (map F (star_lazy AnyChar t))" by simp
  from star_lazy_head [of AnyChar t] obtain r' where r': "star_lazy AnyChar t = t # r'" ..
  from pattern_tail_head [OF w d, of rest] obtain tt where
    "rmatch pattern_tail t = ([ds @ [sep, d1, d2]], rest) # tt" by (auto simp: t_def)
  then have "\<exists>tt'. F t = ([c # a, ds @ [sep, d1, d2]], rest) # tt'" by (simp add: F_def)
  with r s r' obtain tt' where "rmatch pattern (c # a @ t) = ([c # a, ds @ [sep, d1, d2]], rest) # tt'"
    by auto
  then have "re_match pattern (c # a @ t) = Some [c # a, ds @ [sep, d1, d2]]"
    by (simp add: re_match_def)
  then have "re_search pattern (c # a @ t) = Some [c # a, ds @ [sep, d1, d2]]" by simp
  then show ?thesis by (simp add: ca t_def)
qed

lemma extract_part_segment:
  assumes "strip part = g1 @ w1 @ [8212] @ w2 @ [82, 36] @ w3 @ ds @ [sep, d1, d2] @ rest"
    and g1: "g1 \<noteq> []" "10 \<notin> set g1" "8212 \<notin> set g1" "\<not> is_space (last g1)"
    and w: "list_all is_space (w1 @ w2 @ w3)"
    and d: "ds \<noteq> []" "list_all is_digit (ds @ [d1, d2])" "sep = 44 \<or> sep = 46"
  shows "extract_part [] part =
     [(strip g1, to_double (of_nat (digits_value (ds @ [d1, d2])) / 100))]"
  using pattern_head [OF g1 w d, of rest] py_float_amount [OF d]
  by (simp add: extract_part_def assms(1))

lemma d150: "to_double (3 / 2) = Fin (3 / 2)"
  by (rule to_double_exact [of 3 "- 1"]) (simp_all add: power_int_minus)

lemma extract_products_period:
  "extract_products (ascii ''A '' @ [8212] @ ascii '' R$ 1.50'') = [(ascii ''A'', Fin (3 / 2))]"
  unfolding extract_products_def
  apply (simp add: text_eval splitlines.simps)
  apply (simp add: extract_part_def text_eval re_match_def pattern_def)
  apply (simp add: py_float_def text_eval d150)
  done

text \<open>
  C2: extraction goes through the lines of the text in order and, within a line, through
  its bar-separated parts from left to right; each part adds no entry or one. An entry
  comes from a segment that reads: a name, optional whitespace, the em dash, optional
  whitespace, \<open>R$\<close>, optional whitespace, digits, a comma or a period, two digits; its
  price is the double nearest to the decimal the digits denote, the comma read as a
  period. Conversely, a part that reads so from its start, with a name free of the em
  dash and of line feeds, adds exactly the entry of that name and that amount, whether
  the separator of the amount is a comma or a period. The two examples give the catalogs
  the claim states, and an amount written with a period is read alike.
\<close>

theorem extract_products_algorithm:
  "extract_products pdf_text =
     concat (map (\<lambda>line. concat (map (extract_part []) (split_on 124 line))) (splitlines pdf_text)) \<and>
   (extract_part [] part = [] \<or>
    (\<exists>nome preco. extract_part [] part = [(nome, preco)] \<and> catalog_segment (strip part) nome preco)) \<and>
   (strip part = g1 @ w1 @ [8212] @ w2 @ [82, 36] @ w3 @ ds @ [sep, d1, d2] @ rest \<and>
    g1 \<noteq> [] \<and> 10 \<notin> set g1 \<and> 8212 \<notin> set g1 \<and> \<not> is_space (last g1) \<and>
    list_all is_space (w1 @ w2 @ w3) \<and>
    ds \<noteq> [] \<and> list_all is_digit (ds @ [d1, d2]) \<and> (sep = 44 \<or> sep = 46) \<longrightarrow>
      extract_part [] part =
        [(strip g1, to_double (of_nat (digits_value (ds @ [d1, d2])) / 100))]) \<and>
   extract_products example_catalog_text =
     [(pao_frances, to_double (4 / 5)), (ascii ''Bolo Inteiro Chocolate'', Fin 38)] \<and>
   extract_products (ascii ''A '' @ [8212] @ ascii '' R$1,00 | B '' @ [8212] @ ascii '' R$2,00'')
     = [(ascii ''A'', Fin 1), (ascii ''B'', Fin 2)] \<and>
   extract_products (ascii ''A '' @ [8212] @ ascii '' R$ 1.50'') = [(ascii ''A'', Fin (3 / 2))]"
proof -
  have a: "extract_products pdf_text =
     concat (map (\<lambda>line. concat (map (extract_part []) (split_on 124 line))) (splitlines pdf_text))"
    using extract_products_concat [of pdf_text] by (simp add: extract_line_def [abs_def])
  have b: "extract_part [] part = [] \<or>
    (\<exists>nome preco. extract_part [] part = [(nome, preco)] \<and> catalog_segment (strip part) nome preco)"
    using extract_part_entry [of part] by blast
  have c: "strip part = g1 @ w1 @ [8212] @ w2 @ [82, 36] @ w3 @ ds @ [sep, d1, d2] @ rest \<and>
    g1 \<noteq> [] \<and> 10 \<notin> set g1 \<and> 8212 \<notin> set g1 \<and> \<not> is_space (last g1) \<and>
    list_all is_space (w1 @ w2 @ w3) \<and>
    ds \<noteq> [] \<and> list_all is_digit (ds @ [d1, d2]) \<and> (sep = 44 \<or> sep = 46) \<longrightarrow>
      extract_part [] part =
        [(strip g1, to_double (of_nat (digits_value (ds @ [d1, d2])) / 100))]"
    using extract_part_segment [of part g1 w1 w2 w3 ds sep d1 d2 rest] by blast
  have d: "extract_products example_catalog_text =
     [(pao_frances, to_double (4 / 5)), (ascii ''Bolo Inteiro Chocolate'', Fin 38)]"
    by (simp add: extract_products_example example_catalog_def price_080_nearest)
  from a b c d extract_products_two_on_a_line extract_products_period show ?thesis
    by (intro conjI)
qed

theorem extract_products_algorithm_witness:
  "strip (ascii ''A '' @ [8212] @ ascii '' R$ 1.50 '') =
     ascii ''A'' @ ascii '' '' @ [8212] @ ascii '' '' @ [82, 36] @ ascii '' '' @ ascii ''1'' @
     [46, 53, 48] @ [] \<and>
   list_all is_space (ascii '' '' @ ascii '' '' @ ascii '' '') \<and>
   list_all is_digit (ascii ''1'' @ [53, 48]) \<and>
   extract_part [] (ascii ''A '' @ [8212] @ ascii '' R$ 1.50 '') = [(ascii ''A'', Fin (3 / 2))] \<and>
   catalog_segment (strip (ascii ''A '' @ [8212] @ ascii '' R$ 1.50 '')) (ascii ''A'') (Fin (3 / 2))"
proof -
  note t = extract_products_algorithm [where part = "ascii ''A '' @ [8212] @ ascii '' R$ 1.50 ''"
      and ?g1.0 = "ascii ''A''" and ?w1.0 = "ascii '' ''" and ?w2.0 = "ascii '' ''"
      and ?w3.0 = "ascii '' ''" and ds = "ascii ''1''" and sep = 46 and ?d1.0 = 53 and ?d2.0 = 48
      and rest = "[]"]
  have s: "strip (ascii ''A '' @ [8212] @ ascii '' R$ 1.50 '') =
     ascii ''A'' @ ascii '' '' @ [8212] @ ascii '' '' @ [82, 36] @ ascii '' '' @ ascii ''1'' @
     [46, 53, 48] @ []"
    by (simp add: text_eval)
  have w: "list_all is_space (ascii '' '' @ ascii '' '' @ ascii '' '')"
    by (simp add: text_eval)
  have g: "list_all is_digit (ascii ''1'' @ [53, 48])"
    by (simp add: text_eval)
  have n: "ascii ''A'' \<noteq> [] \<and> 10 \<notin> set (ascii ''A'') \<and> 8212 \<notin> set (ascii ''A'') \<and>
    \<not> is_space (last (ascii ''A'')) \<and> ascii ''1'' \<noteq> []"
    by (simp add: text_eval)
  from t s w g n have "extract_part [] (ascii ''A '' @ [8212] @ ascii '' R$ 1.50 '') =
    [(strip (ascii ''A''), to_double (of_nat (digits_value (ascii ''1'' @ [53, 48])) / 100))]"
    by blast
  then have e: "extract_part [] (ascii ''A '' @ [8212] @ ascii '' R$ 1.50 '') = [(ascii ''A'', Fin (3 / 2))]"
    by (simp add: text_eval d150)
  with t have c: "catalog_segment (strip (ascii ''A '' @ [8212] @ ascii '' R$ 1.50 '')) (ascii ''A'') (Fin (3 / 2))"
    by auto
  from s w g e c show ?thesis by (intro conjI)
qed

section \<open>Fragments of an order typed on one line\<close>

text \<open>
  The quantity and the name of a fragment as the specification words them: leading
  digits followed by whitespace are the quantity and what follows the whitespace is the
  name; any other fragment has quantity 1 and is its own name. \<open>int\<close> refuses more than
  4300 digits.
\<close>

definition parse_fragment :: "ustr \<Rightarrow> error + nat \<times> ustr" where
  "parse_fragment p =
     (let ds = takeWhile is_digit p; rest = dropWhile is_digit p; r = dropWhile is_space rest
      in if ds \<noteq> [] \<and> r \<noteq> rest
         then if int_max_str_digits < length ds then Inl ValueError
              else Inr (digits_value ds, r)
         else Inr (1, p))"

lemma strip_id:
  assumes "s \<noteq> []" "\<not> is_space (hd s)" "\<not> is_space (last s)"
  shows "strip s = s"
proof -
  from assms(1,2) have l: "dropWhile is_space s = s" by (cases s) auto
  from assms(1) obtain x xs where r: "rev s = x # xs" by (cases "rev s") auto
  from assms(1) have "hd (rev s) = last s" by (simp add: hd_rev)
  with r have "x = last s" by simp
  with assms(3) have "dropWhile is_space (x # xs) = x # xs" by simp
  then have "dropWhile is_space (rev s) = rev s" by (simp only: r)
  with l show ?thesis by (simp add: strip_def lstrip_def rstrip_def)
qed

lemma parse_item_fragment:
  assumes "p \<noteq> []" "\<not> is_space (last p)" "10 \<notin> set p"
  shows "parse_item p = parse_fragment p"
proof -
  define rest where "rest = dropWhile is_digit p"
  define r where "r = dropWhile is_space rest"
  have p: "p = takeWhile is_digit p @ rest" by (simp add: rest_def)
  have "strip (takeWhile (\<lambda>c. c \<noteq> 10) r) = r" if ne: "r \<noteq> rest"
  proof -
    from ne have rest: "rest \<noteq> []" by (auto simp: r_def)
    then have lp: "last rest = last p" using p by (metis last_appendR)
    have sub: "set r \<subseteq> set p"
      using set_dropWhileD [of _ is_space rest] set_dropWhileD [of _ is_digit p]
      by (auto simp: r_def rest_def)
    with assms(3) have tw: "takeWhile (\<lambda>c. c \<noteq> 10) r = r"
      by (auto simp: takeWhile_eq_all_conv)
    have sr: "strip r = r"
    proof (rule strip_id)
      show rne: "r \<noteq> []"
      proof
        assume "r = []"
        then have "\<forall>c\<in>set rest. is_space c" by (simp add: r_def dropWhile_eq_Nil_conv)
        with rest have "is_space (last rest)" by simp
        with lp assms(2) show False by simp
      qed
      from rne show "\<not> is_space (hd r)" unfolding r_def by (rule hd_dropWhile)
      have "rest = takeWhile is_space rest @ r" by (simp add: r_def)
      with rne have "last rest = last r" by (metis last_appendR)
      with lp assms(2) show "\<not> is_space (last r)" by simp
    qed
    show ?thesis by (simp only: tw sr)
  qed
  then have "parse_spec p = parse_fragment p"
    by (simp add: parse_spec_def parse_fragment_def Let_def r_def rest_def)
  with parse_item_spec [OF assms(1,2)] show ?thesis by simp
qed

lemma set_place: "set (place c out) = insert c (set out)"
  by (induction out) auto

lemma set_foldl_place: "set (foldl (\<lambda>out c. place c out) acc s) = set s \<union> set acc"
  by (induction s arbitrary: acc) (auto simp: set_place)

lemma decomp_table_no_lf: "\<forall>(k, d)\<in>set decomp_table. 10 \<notin> set d"
  by (simp add: decomp_table_def)

lemma decomp_no_lf: "10 \<in> set (decomp c) \<Longrightarrow> c = 10"
proof (cases "map_of decomp_table c")
  case None
  assume "10 \<in> set (decomp c)"
  with None show ?thesis by (simp add: decomp_def)
next
  case (Some d)
  assume a: "10 \<in> set (decomp c)"
  from Some have "(c, d) \<in> set decomp_table" by (rule map_of_SomeD)
  with decomp_table_no_lf have "10 \<notin> set d" by auto
  with a Some show ?thesis by (simp add: decomp_def)
qed

lemma lower_char_no_lf: "lower_char c = 10 \<Longrightarrow> c = 10"
  by (auto simp: lower_char_def split: if_splits)

lemma normalize_no_lf:
  assumes "10 \<notin> set s"
  shows "10 \<notin> set (normalize s)"
proof
  assume "10 \<in> set (normalize s)"
  then have "10 \<in> set (concat (map decomp (py_lower s)))"
    by (auto simp: normalize_def remover_acentos_def nfd_def canonical_order_def set_foldl_place)
  then obtain c where "c \<in> set (py_lower s)" "10 \<in> set (decomp c)" by auto
  with decomp_no_lf have "10 \<in> set (py_lower s)" by auto
  then obtain c' where "c' \<in> set s" "lower_char c' = 10" by (auto simp: py_lower_def)
  with lower_char_no_lf assms show False by auto
qed

lemma set_split_spec: "p \<in> set (split_spec s) \<Longrightarrow> set p \<subseteq> set s"
proof (induction s arbitrary: p rule: split_spec.induct)
  case 1
  then show ?case by simp
next
  case (2 c cs)
  show ?case
  proof (cases "c = 44")
    case True
    with 2 show ?thesis by auto
  next
    case c: False
    show ?thesis
    proof (cases "c = 32 \<and> take 2 cs = [101, 32]")
      case True
      with c 2 have "p = [] \<or> set p \<subseteq> set (drop 2 cs)" by auto
      then show ?thesis using set_drop_subset [of 2 cs] by auto
    next
      case False
      from split_spec_nonempty [of cs] obtain q qs where q: "split_spec cs = q # qs"
        by (cases "split_spec cs") auto
      with c False 2 have "p = c # q \<or> p \<in> set qs" by auto
      moreover from 2(3) [OF c False] q have "set q \<subseteq> set cs" "\<forall>x\<in>set qs. set x \<subseteq> set cs"
        by auto
      ultimately show ?thesis by auto
    qed
  qed
qed

lemma palavras_no_lf:
  assumes "10 \<notin> set pedido" "p \<in> set (palavras pedido)"
  shows "10 \<notin> set p"
proof -
  from assms(2) obtain f where f: "f \<in> set (split_spec (normalize pedido))" "p = strip f"
    by (auto simp: palavras_spec)
  from set_split_spec [OF f(1)] set_strip [of f] f(2) have "set p \<subseteq> set (normalize pedido)"
    by auto
  with normalize_no_lf [OF assms(1)] show ?thesis by auto
qed

section \<open>Quantities of many digits\<close>

lemma split_spec_prefix:
  assumes "list_all (\<lambda>c. c \<noteq> 44 \<and> c \<noteq> 32) ds"
  shows "split_spec (ds @ s) = (ds @ hd (split_spec s)) # tl (split_spec s)"
  using assms
proof (induction ds)
  case Nil
  then show ?case using split_spec_nonempty [of s] by simp
next
  case (Cons d ds)
  then show ?case by simp
qed

lemma digit_plain_sep: "is_digit c \<Longrightarrow> c \<noteq> 44 \<and> c \<noteq> 32 \<and> c \<noteq> 10"
proof -
  assume d: "is_digit c"
  have "is_space 32" "is_space 10" by (simp_all add: is_space_def)
  with digit_not_space [OF d] not_digit_sep [OF d] show ?thesis by auto
qed

lemma palavras_digits:
  assumes "list_all is_digit ds" "plain ds" "plain s"
  shows "palavras (ds @ s) =
    map strip (filter (\<lambda>f. strip f \<noteq> []) ((ds @ hd (split_spec s)) # tl (split_spec s)))"
proof -
  from assms(2,3) have "plain (ds @ s)" by (simp add: plain_def)
  then have n: "normalize (ds @ s) = ds @ s" by (rule normalize_plain)
  from assms(1) digit_plain_sep have "list_all (\<lambda>c. c \<noteq> 44 \<and> c \<noteq> 32) ds"
    by (auto simp: list_all_iff)
  from split_spec_prefix [OF this, of s] n show ?thesis by (simp only: palavras_spec)
qed

lemma strip_digits_name:
  assumes "ds \<noteq> []" "list_all is_digit ds" "t \<noteq> []" "\<not> is_space (last t)"
  shows "strip (ds @ 32 # t) = ds @ 32 # t"
proof (rule strip_id)
  show "ds @ 32 # t \<noteq> []" by simp
  from assms(1,2) have "is_digit (hd ds)" by (cases ds) auto
  then have "\<not> is_space (hd ds)" by (rule digit_not_space)
  with assms(1) show "\<not> is_space (hd (ds @ 32 # t))" by simp
  from assms(3,4) show "\<not> is_space (last (ds @ 32 # t))" by simp
qed

lemma parse_item_digits:
  assumes "ds \<noteq> []" "list_all is_digit ds"
    and "t \<noteq> []" "\<not> is_space (hd t)" "\<not> is_space (last t)" "10 \<notin> set t"
  shows "parse_item (ds @ 32 # t) =
    (if int_max_str_digits < length ds then Inl ValueError else Inr (digits_value ds, t))"
proof -
  have s: "\<not> is_digit 32" by (simp add: text_eval)
  from assms(2) digit_plain_sep have "10 \<notin> set ds" by (auto simp: list_all_iff)
  with assms(3,5,6) have "parse_item (ds @ 32 # t) = parse_fragment (ds @ 32 # t)"
    by (intro parse_item_fragment) simp_all
  moreover have "takeWhile is_digit (ds @ 32 # t) = ds" using assms(2) s by (rule takeWhile_all)
  moreover have "dropWhile is_digit (ds @ 32 # t) = 32 # t" using assms(2) s by (rule dropWhile_all)
  moreover have "dropWhile is_space (32 # t) = t"
  proof -
    have "is_space 32" by (simp add: is_space_def)
    moreover from assms(3,4) have "dropWhile is_space t = t" by (cases t) auto
    ultimately show ?thesis by simp
  qed
  ultimately show ?thesis using assms(1) by (simp add: parse_fragment_def)
qed

lemma digits_value_zeros: "digits_value (ds @ replicate n 48) = digits_value ds * 10 ^ n"
proof -
  have z: "dval 48 = 0" by (simp add: text_eval)
  have "foldl (\<lambda>n c. 10 * n + dval c) a (replicate n 48) = a * 10 ^ n" for a
    by (induction n arbitrary: a) (simp_all add: z)
  then show ?thesis by simp
qed

text \<open>A quantity of 4301 digits, one more than \<open>int\<close> reads.\<close>

definition long_quantity :: ustr where
  "long_quantity = replicate 4301 49"

lemma long_quantity:
  "long_quantity \<noteq> []" "list_all is_digit long_quantity" "plain long_quantity"
  "length long_quantity = 4301"
proof -
  have d: "is_digit 49" by (simp add: text_eval)
  show "long_quantity \<noteq> []" "length long_quantity = 4301" by (simp_all add: long_quantity_def)
  show "list_all is_digit long_quantity" using d by (simp add: long_quantity_def list_all_iff)
  show "plain long_quantity" by (simp add: long_quantity_def plain_def list_all_iff)
qed

lemma palavras_long_quantity:
  "palavras (long_quantity @ ascii '' paes'') = [long_quantity @ ascii '' paes'']"
proof -
  have p: "plain (ascii '' paes'')" by (simp add: plain_def ascii_def)
  have s: "split_spec (ascii '' paes'') = [ascii '' paes'']" by (simp add: ascii_def)
  have "strip (long_quantity @ 32 # ascii ''paes'') = long_quantity @ 32 # ascii ''paes''"
    by (rule strip_digits_name) (simp_all add: long_quantity text_eval)
  then have t: "strip (long_quantity @ ascii '' paes'') = long_quantity @ ascii '' paes''"
    by (simp add: ascii_def)
  have ne: "long_quantity @ ascii '' paes'' \<noteq> []" by (simp add: ascii_def)
  show ?thesis
    unfolding palavras_digits [OF long_quantity(2,3) p] s
    using t ne by simp
qed

lemma parse_long_quantity: "parse_item (long_quantity @ ascii '' paes'') = Inl ValueError"
proof -
  have "parse_item (long_quantity @ 32 # ascii ''paes'') =
    (if int_max_str_digits < length long_quantity then Inl ValueError
     else Inr (digits_value long_quantity, ascii ''paes''))"
    by (rule parse_item_digits) (simp_all add: long_quantity text_eval)
  then show ?thesis by (simp add: long_quantity int_max_str_digits_def ascii_def)
qed

lemma process_two_items:
  "process_items example_catalog \<lparr>total = Fin 0, itens_pedidos = [], printed = []\<rparr>
       (palavras order_two_items) =
     Inr \<lparr>total = float_39_6,
          itens_pedidos = [ascii ''2 '' @ pao_frances @ [32, 8212, 32] @ ascii ''R$1.60'',
            ascii ''1 Bolo Inteiro Chocolate '' @ [8212] @ ascii '' R$38.00''],
          printed = []\<rparr>"
  by (simp add: palavras_two_items
      process_item_matched [OF item_of_examples(1)] process_item_matched [OF item_of_examples(2)]
      subtotal_of_def line_of_def float_steps item_lines float_steps_Suc)

text \<open>
  C7, as amended: the normalised order text is cut at commas and at \<open>' e '\<close>, each
  fragment is trimmed and the empty ones are discarded. In an order without a line feed,
  as one typed on a line is, no fragment has a line feed, and every fragment that begins
  with digits followed by whitespace has the integer those digits denote as its quantity
  and what follows the whitespace as its name, unless the digits are more than 4300,
  which raises \<open>ValueError\<close>; any other fragment has quantity 1 and itself as its name,
  so a quantity at the end, as in \<open>paes 2\<close>, is not recognised. When the loop completes,
  every fragment has added exactly one item line or one warning: none is dropped.
\<close>

theorem tokenize_order:
  "palavras pedido = map strip (filter (\<lambda>f. strip f \<noteq> []) (split_spec (normalize pedido))) \<and>
   (\<forall>p\<in>set (palavras pedido). p \<noteq> [] \<and> strip p = p \<and>
      (10 \<notin> set p \<longrightarrow> parse_item p = parse_fragment p)) \<and>
   (10 \<notin> set pedido \<longrightarrow> (\<forall>p\<in>set (palavras pedido). 10 \<notin> set p)) \<and>
   parse_item (ascii ''paes 2'') = Inr (1, ascii ''paes 2'') \<and>
   (process_items produtos st (palavras pedido) = Inr st' \<longrightarrow>
      length (itens_pedidos st') + length (printed st') =
      length (itens_pedidos st) + length (printed st) + length (palavras pedido))"
proof -
  have b: "\<forall>p\<in>set (palavras pedido). p \<noteq> [] \<and> strip p = p \<and>
      (10 \<notin> set p \<longrightarrow> parse_item p = parse_fragment p)"
    using palavras_stripped [of _ pedido] parse_item_fragment by blast
  have c: "10 \<notin> set pedido \<longrightarrow> (\<forall>p\<in>set (palavras pedido). 10 \<notin> set p)"
    using palavras_no_lf [of pedido] by blast
  have d: "process_items produtos st (palavras pedido) = Inr st' \<longrightarrow>
      length (itens_pedidos st') + length (printed st') =
      length (itens_pedidos st) + length (printed st) + length (palavras pedido)"
    using process_items_count [of produtos st "palavras pedido" st'] by blast
  from palavras_spec [of pedido] b c parse_item_example_trailing d show ?thesis
    by (intro conjI)
qed

theorem tokenize_order_witness:
  "ascii ''2 paes franceses'' \<in> set (palavras order_two_items) \<and>
   10 \<notin> set order_two_items \<and>
   10 \<notin> set (ascii ''2 paes franceses'') \<and>
   parse_item (ascii ''2 paes franceses'') = parse_fragment (ascii ''2 paes franceses'') \<and>
   parse_fragment (ascii ''2 paes franceses'') = Inr (2, ascii ''paes franceses'') \<and>
   process_items example_catalog \<lparr>total = Fin 0, itens_pedidos = [], printed = []\<rparr>
       (palavras order_two_items) =
     Inr \<lparr>total = float_39_6,
          itens_pedidos = [ascii ''2 '' @ pao_frances @ [32, 8212, 32] @ ascii ''R$1.60'',
            ascii ''1 Bolo Inteiro Chocolate '' @ [8212] @ ascii '' R$38.00''],
          printed = []\<rparr> \<and>
   length [ascii ''2 '' @ pao_frances @ [32, 8212, 32] @ ascii ''R$1.60'',
           ascii ''1 Bolo Inteiro Chocolate '' @ [8212] @ ascii '' R$38.00''] +
     length ([] :: ustr list) =
     length ([] :: ustr list) + length ([] :: ustr list) + length (palavras order_two_items)"
proof -
  note t = tokenize_order [of order_two_items example_catalog
      "\<lparr>total = Fin 0, itens_pedidos = [], printed = []\<rparr>"
      "\<lparr>total = float_39_6,
          itens_pedidos = [ascii ''2 '' @ pao_frances @ [32, 8212, 32] @ ascii ''R$1.60'',
            ascii ''1 Bolo Inteiro Chocolate '' @ [8212] @ ascii '' R$38.00''],
          printed = []\<rparr>"]
  have m: "ascii ''2 paes franceses'' \<in> set (palavras order_two_items)"
    by (simp add: palavras_two_items)
  have n: "10 \<notin> set order_two_items" by (simp add: order_two_items_def ascii_def)
  from t n m have l: "10 \<notin> set (ascii ''2 paes franceses'')" by blast
  from t m l have e: "parse_item (ascii ''2 paes franceses'') = parse_fragment (ascii ''2 paes franceses'')"
    by blast
  with parse_examples(1) have s: "parse_fragment (ascii ''2 paes franceses'') = Inr (2, ascii ''paes franceses'')"
    by simp
  from t process_two_items have "length (itens_pedidos \<lparr>total = float_39_6,
          itens_pedidos = [ascii ''2 '' @ pao_frances @ [32, 8212, 32] @ ascii ''R$1.60'',
            ascii ''1 Bolo Inteiro Chocolate '' @ [8212] @ ascii '' R$38.00''],
          printed = []\<rparr>) + length (printed \<lparr>total = float_39_6,
          itens_pedidos = [ascii ''2 '' @ pao_frances @ [32, 8212, 32] @ ascii ''R$1.60'',
            ascii ''1 Bolo Inteiro Chocolate '' @ [8212] @ ascii '' R$38.00''],
          printed = []\<rparr>) =
      length (itens_pedidos \<lparr>total = Fin 0, itens_pedidos = [], printed = []\<rparr>) +
      length (printed \<lparr>total = Fin 0, itens_pedidos = [], printed = []\<rparr>) +
      length (palavras order_two_items)" by blast
  then have c: "length [ascii ''2 '' @ pao_frances @ [32, 8212, 32] @ ascii ''R$1.60'',
           ascii ''1 Bolo Inteiro Chocolate '' @ [8212] @ ascii '' R$38.00''] +
     length ([] :: ustr list) =
     length ([] :: ustr list) + length ([] :: ustr list) + length (palavras order_two_items)"
    by simp
  from m n l e s process_two_items c show ?thesis by (intro conjI)
qed

text \<open>
  C7 as stated fails: the fragment of 4301 digits, a space and \<open>paes\<close> begins with an
  integer followed by whitespace, yet it has no quantity and no name; reading the digits
  raises \<open>ValueError\<close>, and the call ends with nothing returned.
\<close>

theorem quantity_digit_limit_counterexample:
  "map parse_item (palavras (replicate 4301 49 @ ascii '' paes'')) = [Inl ValueError] \<and>
   calcular_pedido_completo (replicate 4301 49 @ ascii '' paes'') example_catalog =
     Inl ValueError"
proof -
  have "map parse_item (palavras (long_quantity @ ascii '' paes'')) = [Inl ValueError] \<and>
   calcular_pedido_completo (long_quantity @ ascii '' paes'') example_catalog = Inl ValueError"
    by (simp add: palavras_long_quantity parse_long_quantity calcular_pedido_completo_def
        process_item_def)
  then show ?thesis by (simp only: long_quantity_def)
qed

section \<open>The names that were not found\<close>

lemma to_double_overflow:
  assumes "2 ^ 1024 \<le> q"
  shows "to_double q = PInf"
proof -
  have "(0::rat) < 2 ^ 1024" by simp
  from this assms have q: "0 < q" by (rule less_le_trans)
  have "(2::rat) powi 1024 \<le> q" using assms by simp
  moreover have "0 < (2::rat) powi 1024" by simp
  ultimately have "binade (2 powi 1024) \<le> binade q" by (intro binade_mono)
  moreover have "binade ((2::rat) powi 1024) = 1024" by (rule binade_eqI) simp_all
  ultimately have e: "1024 \<le> binade q" by simp
  define u :: rat where "u = 2 powi (binade q - 52)"
  have u: "0 < u" by (simp add: u_def)
  from e have m: "max (binade q - 52) (- 1074) = binade q - 52" by simp
  from binade_bounds [OF q] have "2 powi (binade q) \<le> q" by simp
  moreover have "(2::rat) powi (binade q) = 2 powi 52 * u"
  proof -
    have "(2::rat) powi (52 + (binade q - 52)) = 2 powi 52 * 2 powi (binade q - 52)"
      by (rule power_int_add) simp
    moreover have "52 + (binade q - 52) = binade q" by simp
    ultimately show ?thesis by (simp only: u_def)
  qed
  ultimately have "of_int (2 ^ 52) \<le> q / u" using u by (simp add: pos_le_divide_eq)
  then have "2 ^ 52 \<le> round_half_even (q / u)" by (rule rhe_ge_int)
  then have "(of_int (2 ^ 52) :: rat) \<le> of_int (round_half_even (q / u))"
    by (simp only: of_int_le_iff)
  then have r: "(2 ^ 52 :: rat) \<le> of_int (round_half_even (q / u))" by simp
  from u have "0 \<le> u" by simp
  with r have a: "2 ^ 52 * u \<le> of_int (round_half_even (q / u)) * u"
    by (rule mult_right_mono)
  have b: "(2 ^ 1024 :: rat) \<le> 2 ^ 52 * u"
  proof -
    from e have "(2::rat) powi 972 \<le> 2 powi (binade q - 52)"
      by (intro power_int_increasing) simp_all
    then have "(2 ^ 972 :: rat) \<le> u" by (simp add: u_def)
    moreover have "(0::rat) \<le> 2 ^ 52" by simp
    ultimately have "(2 ^ 52 :: rat) * 2 ^ 972 \<le> 2 ^ 52 * u" by (rule mult_left_mono)
    moreover have "(2 ^ 52 :: rat) * 2 ^ 972 = 2 ^ 1024" by (simp add: power_add [symmetric])
    ultimately show ?thesis by (simp only:)
  qed
  from b a have "(2 ^ 1024 :: rat) \<le> of_int (round_half_even (q / u)) * u"
    by (rule order_trans)
  with q m show ?thesis by (simp add: to_double_def Let_def u_def)
qed

lemma float_of_int_overflow:
  assumes "2 ^ 1024 \<le> n"
  shows "float_of_int n = Inl OverflowError"
proof -
  from assms have "(of_nat (2 ^ 1024) :: rat) \<le> of_nat n" by (simp only: of_nat_le_iff)
  then have "(2 ^ 1024 :: rat) \<le> of_nat n" by simp
  then show ?thesis by (simp add: float_of_int_def to_double_overflow)
qed

lemma float_of_int_ok:
  assumes "n \<le> 2 ^ 1023"
  shows "\<exists>q. float_of_int n = Inr q"
proof -
  have x: "to_double (2 ^ 1023) = Fin (2 ^ 1023)"
    by (rule to_double_exact [of 1 1023]) simp_all
  from assms have "(of_nat n :: rat) \<le> of_nat (2 ^ 1023)" by (simp only: of_nat_le_iff)
  then have "(of_nat n :: rat) \<le> 2 ^ 1023" by simp
  from to_double_mono [OF this] have "fge (Fin (2 ^ 1023)) (to_double (of_nat n))"
    by (simp only: x)
  then have "to_double (of_nat n) \<noteq> PInf" by auto
  then show ?thesis by (cases "to_double (of_nat n)") (simp_all add: float_of_int_def)
qed

lemma foldl_upd_defined:
  assumes "m0 k \<noteq> None \<or> k \<in> set (map (\<lambda>p. normalize (fst p)) ps)"
  shows "foldl (\<lambda>m p. m(normalize (fst p) \<mapsto> p)) m0 ps k \<noteq> None"
  using assms
proof (induction ps arbitrary: m0)
  case Nil
  then show ?case by simp
next
  case (Cons a ps)
  have "foldl (\<lambda>m p. m(normalize (fst p) \<mapsto> p)) (m0(normalize (fst a) \<mapsto> a)) ps k \<noteq> None"
    using Cons.prems by (intro Cons.IH) auto
  then show ?case by (simp only: foldl_Cons not_False_eq_True)
qed

lemma mapa_produtos_dom:
  "k \<in> set (nomes_prod_norm produtos) \<Longrightarrow> \<exists>p. mapa_produtos produtos k = Some p"
  using foldl_upd_defined [of Map.empty k produtos]
  by (simp add: mapa_produtos_def nomes_prod_norm_def)

lemma item_of_unmatched:
  assumes "parse_item p = Inr (qtd, nome)"
    and "\<forall>x\<in>set (nomes_prod_norm produtos). \<not> fge (ratio x nome) cutoff"
  shows "item_of produtos p = Some (Inl nome)"
proof -
  from get_close_matches_cases [of nome "nomes_prod_norm produtos"] assms(2)
  have "get_close_matches nome (nomes_prod_norm produtos) = []" by auto
  with assms(1) show ?thesis by (simp add: item_of_def)
qed

lemma item_of_defined:
  assumes "parse_item p = Inr (qtd, nome)" "qtd \<le> 2 ^ 1023"
  shows "item_of produtos p \<noteq> None"
proof -
  from get_close_matches_cases [of nome "nomes_prod_norm produtos"]
  consider "get_close_matches nome (nomes_prod_norm produtos) = []"
    | x where "get_close_matches nome (nomes_prod_norm produtos) = [x]"
        "x \<in> set (nomes_prod_norm produtos)"
    by blast
  then show ?thesis
  proof cases
    case 1
    with assms(1) show ?thesis by (simp add: item_of_def)
  next
    case 2
    from mapa_produtos_dom [OF 2(2)] obtain pr where "mapa_produtos produtos x = Some pr" ..
    moreover from float_of_int_ok [OF assms(2)] obtain q where "float_of_int qtd = Inr q" ..
    ultimately show ?thesis using assms(1) 2(1) by (simp add: item_of_def)
  qed
qed

lemma unmatched_names_mem:
  "p \<in> set ps \<Longrightarrow> item_of produtos p = Some (Inl nome) \<Longrightarrow>
     nome \<in> set (unmatched_names produtos ps)"
  by (force simp: unmatched_names_def)

lemma calcular_returns:
  assumes "\<forall>p\<in>set (palavras pedido). item_of produtos p \<noteq> None"
  shows "\<exists>t itens. calcular_pedido_completo pedido produtos =
     Inr ((t, itens), map aviso_line (unmatched_names produtos (palavras pedido)))"
proof -
  from process_items_total [OF assms]
  obtain st' where "process_items produtos \<lparr>total = Fin 0, itens_pedidos = [], printed = []\<rparr>
      (palavras pedido) = Inr st'" by blast
  then have c: "calcular_pedido_completo pedido produtos =
      Inr ((round2 (total st'), itens_pedidos st'), printed st')"
    by (simp add: calcular_pedido_completo_def)
  from calcular_result [OF this] c show ?thesis by simp
qed

text \<open>A quantity of 310 digits, the number \<open>10 ^ 309\<close>, which no float holds.\<close>

definition big_quantity :: ustr where
  "big_quantity = 49 # replicate 309 48"

definition order_overflow :: ustr where
  "order_overflow = big_quantity @ ascii '' paes franceses, xyz inexistente''"

lemma big_quantity:
  "big_quantity \<noteq> []" "list_all is_digit big_quantity" "plain big_quantity"
  "length big_quantity = 310" "digits_value big_quantity = 10 ^ 309"
proof -
  have d: "is_digit 49" "is_digit 48" by (simp_all add: text_eval)
  show "big_quantity \<noteq> []" "length big_quantity = 310" by (simp_all add: big_quantity_def)
  show "list_all is_digit big_quantity" using d by (simp add: big_quantity_def list_all_iff)
  show "plain big_quantity" by (simp add: big_quantity_def plain_def list_all_iff)
  have "digits_value ([49] @ replicate 309 48) = digits_value [49] * 10 ^ 309"
    by (rule digits_value_zeros)
  moreover have "digits_value [49] = 1" by (simp add: text_eval)
  ultimately show "digits_value big_quantity = 10 ^ 309" by (simp add: big_quantity_def)
qed

lemma palavras_overflow:
  "palavras order_overflow = [big_quantity @ ascii '' paes franceses'', ascii ''xyz inexistente'']"
proof -
  have p: "plain (ascii '' paes franceses, xyz inexistente'')" by (simp add: plain_def ascii_def)
  have s: "split_spec (ascii '' paes franceses, xyz inexistente'') =
      [ascii '' paes franceses'', ascii '' xyz inexistente'']" by (simp add: ascii_def)
  have "strip (big_quantity @ 32 # ascii ''paes franceses'') =
      big_quantity @ 32 # ascii ''paes franceses''"
    by (rule strip_digits_name) (simp_all add: big_quantity text_eval)
  then have t: "strip (big_quantity @ ascii '' paes franceses'') =
      big_quantity @ ascii '' paes franceses''"
    by (simp add: ascii_def)
  have ne: "big_quantity @ ascii '' paes franceses'' \<noteq> []" by (simp add: ascii_def)
  have x: "strip (ascii '' xyz inexistente'') = ascii ''xyz inexistente''"
    by (simp add: text_eval)
  have xne: "ascii ''xyz inexistente'' \<noteq> []" by (simp add: ascii_def)
  show ?thesis
    unfolding order_overflow_def palavras_digits [OF big_quantity(2,3) p] s
    using t ne x xne by simp
qed

lemma parse_overflow:
  "parse_item (big_quantity @ ascii '' paes franceses'') = Inr (10 ^ 309, ascii ''paes franceses'')"
proof -
  have "parse_item (big_quantity @ 32 # ascii ''paes franceses'') =
    (if int_max_str_digits < length big_quantity then Inl ValueError
     else Inr (digits_value big_quantity, ascii ''paes franceses''))"
    by (rule parse_item_digits) (simp_all add: big_quantity text_eval)
  moreover have "\<not> int_max_str_digits < length big_quantity"
    by (simp add: big_quantity int_max_str_digits_def)
  ultimately have "parse_item (big_quantity @ 32 # ascii ''paes franceses'') =
    Inr (digits_value big_quantity, ascii ''paes franceses'')" by (simp only: if_False)
  then have "parse_item (big_quantity @ 32 # ascii ''paes franceses'') =
    Inr (10 ^ 309, ascii ''paes franceses'')" by (simp only: big_quantity(5))
  then show ?thesis by (simp add: ascii_def)
qed

lemma process_overflow:
  "process_item example_catalog st (big_quantity @ ascii '' paes franceses'') = Inl OverflowError"
proof -
  have "(2::nat) ^ 1024 \<le> 10 ^ 309" by simp
  then have "float_of_int (10 ^ 309) = Inl OverflowError" by (rule float_of_int_overflow)
  then show ?thesis
    by (simp add: process_item_def parse_overflow close_paes mapa_example)
qed

lemma calcular_overflow:
  "calcular_pedido_completo order_overflow example_catalog = Inl OverflowError"
  by (simp add: calcular_pedido_completo_def palavras_overflow process_overflow)

text \<open>
  C6, as amended: a fragment whose name scores below the cutoff against every name of
  the catalog never raises: it adds its warning to what is printed and leaves the total
  and the item lines as they were, and the loop goes on. When the call returns, the
  warnings printed are exactly those of the fragments that were not found, in order, and
  the name of each such fragment is among them. The call does return when every
  fragment has a quantity that \<open>int\<close> reads and that is at most \<open>2 ^ 1023\<close>. The order
  \<open>3 xyz inexistente\<close> against the example catalog returns the total \<open>0.0\<close>, no item
  line, and the one warning for \<open>xyz inexistente\<close>.
\<close>

theorem unmatched_recorded:
  "(parse_item p = Inr (qtd, nome) \<and>
    (\<forall>x\<in>set (nomes_prod_norm produtos). \<not> fge (ratio x nome) cutoff) \<longrightarrow>
      process_item produtos st p = Inr (st\<lparr>printed := printed st @ [aviso_line nome]\<rparr>) \<and>
      (p \<in> set ps \<longrightarrow> nome \<in> set (unmatched_names produtos ps))) \<and>
   (calcular_pedido_completo pedido produtos = Inr ((t, itens), out) \<longrightarrow>
      out = map aviso_line (unmatched_names produtos (palavras pedido))) \<and>
   ((\<forall>f\<in>set (palavras pedido). \<exists>q n. parse_item f = Inr (q, n) \<and> q \<le> 2 ^ 1023) \<longrightarrow>
      (\<exists>t' itens'. calcular_pedido_completo pedido produtos =
         Inr ((t', itens'), map aviso_line (unmatched_names produtos (palavras pedido))))) \<and>
   calcular_pedido_completo (ascii ''3 xyz inexistente'') (extract_products example_catalog_text) =
     Inr ((Fin 0, []), [aviso_line (ascii ''xyz inexistente'')])"
proof -
  have a: "parse_item p = Inr (qtd, nome) \<and>
    (\<forall>x\<in>set (nomes_prod_norm produtos). \<not> fge (ratio x nome) cutoff) \<longrightarrow>
      process_item produtos st p = Inr (st\<lparr>printed := printed st @ [aviso_line nome]\<rparr>) \<and>
      (p \<in> set ps \<longrightarrow> nome \<in> set (unmatched_names produtos ps))"
    using item_of_unmatched [of p qtd nome produtos]
      process_item_unmatched [of produtos p nome st] unmatched_names_mem [of p ps produtos nome]
    by blast
  have b: "calcular_pedido_completo pedido produtos = Inr ((t, itens), out) \<longrightarrow>
      out = map aviso_line (unmatched_names produtos (palavras pedido))"
    using calcular_result [of pedido produtos t itens out] by blast
  have c: "(\<forall>f\<in>set (palavras pedido). \<exists>q n. parse_item f = Inr (q, n) \<and> q \<le> 2 ^ 1023) \<longrightarrow>
      (\<exists>t' itens'. calcular_pedido_completo pedido produtos =
         Inr ((t', itens'), map aviso_line (unmatched_names produtos (palavras pedido))))"
  proof
    assume h: "\<forall>f\<in>set (palavras pedido). \<exists>q n. parse_item f = Inr (q, n) \<and> q \<le> 2 ^ 1023"
    have "\<forall>f\<in>set (palavras pedido). item_of produtos f \<noteq> None"
    proof
      fix f assume "f \<in> set (palavras pedido)"
      with h obtain q n where "parse_item f = Inr (q, n)" "q \<le> 2 ^ 1023" by blast
      then show "item_of produtos f \<noteq> None" by (rule item_of_defined)
    qed
    then show "\<exists>t' itens'. calcular_pedido_completo pedido produtos =
         Inr ((t', itens'), map aviso_line (unmatched_names produtos (palavras pedido)))"
      by (rule calcular_returns)
  qed
  have d: "calcular_pedido_completo (ascii ''3 xyz inexistente'') (extract_products example_catalog_text) =
     Inr ((Fin 0, []), [aviso_line (ascii ''xyz inexistente'')])"
    using calcular_unknown by (simp add: extract_products_example order_unknown_def)
  from a b c d show ?thesis by (intro conjI)
qed

theorem unmatched_recorded_witness:
  "parse_item (ascii ''3 xyz inexistente'') = Inr (3, ascii ''xyz inexistente'') \<and>
   nomes_prod_norm example_catalog = [ascii ''pao frances'', ascii ''bolo inteiro chocolate''] \<and>
   \<not> fge (ratio (ascii ''pao frances'') (ascii ''xyz inexistente'')) cutoff \<and>
   \<not> fge (ratio (ascii ''bolo inteiro chocolate'') (ascii ''xyz inexistente'')) cutoff \<and>
   palavras order_unknown = [ascii ''3 xyz inexistente''] \<and>
   (3 :: nat) \<le> 2 ^ 1023 \<and>
   process_item example_catalog \<lparr>total = Fin 0, itens_pedidos = [], printed = []\<rparr>
       (ascii ''3 xyz inexistente'') =
     Inr \<lparr>total = Fin 0, itens_pedidos = [],
          printed = [aviso_line (ascii ''xyz inexistente'')]\<rparr> \<and>
   ascii ''xyz inexistente'' \<in> set (unmatched_names example_catalog (palavras order_unknown)) \<and>
   calcular_pedido_completo order_unknown example_catalog =
     Inr ((Fin 0, []), [aviso_line (ascii ''xyz inexistente'')]) \<and>
   [aviso_line (ascii ''xyz inexistente'')] =
     map aviso_line (unmatched_names example_catalog (palavras order_unknown))"
proof -
  note t = unmatched_recorded [of "ascii ''3 xyz inexistente''" 3 "ascii ''xyz inexistente''"
      example_catalog "\<lparr>total = Fin 0, itens_pedidos = [], printed = []\<rparr>"
      "palavras order_unknown" order_unknown "Fin 0" "[]" "[aviso_line (ascii ''xyz inexistente'')]"]
  have r: "\<not> fge (ratio (ascii ''pao frances'') (ascii ''xyz inexistente'')) cutoff"
    "\<not> fge (ratio (ascii ''bolo inteiro chocolate'') (ascii ''xyz inexistente'')) cutoff"
    by (simp_all add: ratio_examples below_cutoff)
  then have b: "\<forall>x\<in>set (nomes_prod_norm example_catalog).
      \<not> fge (ratio x (ascii ''xyz inexistente'')) cutoff"
    by (simp add: names_example)
  have m: "ascii ''3 xyz inexistente'' \<in> set (palavras order_unknown)"
    by (simp add: palavras_unknown)
  have n: "(3 :: nat) \<le> 2 ^ 1023" by simp
  from t parse_examples(3) b
  have p: "process_item example_catalog \<lparr>total = Fin 0, itens_pedidos = [], printed = []\<rparr>
       (ascii ''3 xyz inexistente'') =
     Inr (\<lparr>total = Fin 0, itens_pedidos = [], printed = []\<rparr>
        \<lparr>printed := printed \<lparr>total = Fin 0, itens_pedidos = [], printed = []\<rparr> @
           [aviso_line (ascii ''xyz inexistente'')]\<rparr>)"
    by blast
  then have p': "process_item example_catalog \<lparr>total = Fin 0, itens_pedidos = [], printed = []\<rparr>
       (ascii ''3 xyz inexistente'') =
     Inr \<lparr>total = Fin 0, itens_pedidos = [],
          printed = [aviso_line (ascii ''xyz inexistente'')]\<rparr>"
    by simp
  from t parse_examples(3) b m
  have u: "ascii ''xyz inexistente'' \<in> set (unmatched_names example_catalog (palavras order_unknown))"
    by blast
  from t calcular_unknown
  have o: "[aviso_line (ascii ''xyz inexistente'')] =
     map aviso_line (unmatched_names example_catalog (palavras order_unknown))"
    by blast
  from parse_examples(3) names_example r palavras_unknown n p' u calcular_unknown o show ?thesis
    by (intro conjI)
qed

text \<open>
  C6 as stated fails: in the order of \<open>10 ^ 309\<close> \<open>paes franceses\<close> and \<open>xyz inexistente\<close>,
  the second fragment is below the cutoff against both names of the catalog, yet no
  warning for it is printed: the subtotal of the first fragment raises \<open>OverflowError\<close>
  and the call ends there, with nothing returned.
\<close>

theorem unmatched_after_overflow_counterexample:
  "palavras (49 # replicate 309 48 @ ascii '' paes franceses, xyz inexistente'') =
     [49 # replicate 309 48 @ ascii '' paes franceses'', ascii ''xyz inexistente''] \<and>
   get_close_matches (ascii ''xyz inexistente'') (nomes_prod_norm example_catalog) = [] \<and>
   calcular_pedido_completo (49 # replicate 309 48 @ ascii '' paes franceses, xyz inexistente'')
       example_catalog = Inl OverflowError"
proof -
  have "palavras order_overflow =
     [big_quantity @ ascii '' paes franceses'', ascii ''xyz inexistente''] \<and>
   get_close_matches (ascii ''xyz inexistente'') (nomes_prod_norm example_catalog) = [] \<and>
   calcular_pedido_completo order_overflow example_catalog = Inl OverflowError"
    using palavras_overflow close_unknown calcular_overflow by (intro conjI)
  then show ?thesis by (simp only: order_overflow_def big_quantity_def append_Cons)
qed

end
